theory Spec2Isabelle
  imports Complex_Main "HOL-Library.Word" "HOL-Library.Monad_Syntax"
begin

section \<open>The N-body simulation of nbody-mpi.c\<close>

text \<open>
  The program advances N point masses under softened pairwise gravity. It is an SPMD
  program over MPI: every rank runs \<open>main\<close>; rank 0 generates the bodies, prints, integrates
  and records; every rank evaluates the forces on its own slice of the bodies between a
  broadcast and a gather.

  The embedding follows the source function by function, as the source is compiled by
  default: without \<open>DEBUG\<close> (no progress bar) and without \<open>NDEBUG\<close> (the assertions are
  checked), on a platform whose \<open>size_t\<close> and \<open>long\<close> have 64 bits and whose \<open>float\<close> has 32.
  Three things of the C program are made explicit:
  \<^item> \<open>float\<close> and \<open>double\<close> arithmetic is a parameter: a record of the operations the source
    applies (\<open>arith\<close>). Whatever holds for every such record holds for the machine's
    arithmetic; claims about numeric values are stated for IEEE 754 binary32 (\<open>ieee\<close>),
    the arithmetic of the compiled program. The exact arithmetic of the reals (\<open>ideal\<close>) is
    the one in which the formulas of the specification are read, for comparison.
    \<open>size_t\<close> is a 64-bit word, with the wrap-around of the source's unsigned arithmetic.
  \<^item> the C library and the MPI launcher are a parameter too (\<open>libc\<close>, and the number of
    ranks \<open>world_size\<close>, which MPI keeps between 1 and the largest \<open>int\<close>).
  \<^item> an access outside an allocated array, a conversion to \<open>size_t\<close> whose value does
    not fit and a count that does not fit the \<open>int\<close> of an MPI call are results of their
    own (\<open>None\<close>, and the status \<open>Runtime_Failure\<close> of a run): C and MPI do not say what
    the program does next.
\<close>

subsection \<open>Data\<close>

type_synonym size_t = "64 word"

record 'f body =
  x :: 'f
  y :: 'f
  ax :: 'f
  ay :: 'f
  vx :: 'f
  vy :: 'f
  mass :: 'f

text \<open>
  The arithmetic the source uses on \<open>float\<close> (\<open>'f\<close>) and, in one expression of the generator,
  on \<open>double\<close> (\<open>'d\<close>). \<open>flit\<close> reads a literal such as \<open>0.5f\<close>; \<open>size_of_float\<close> is the
  conversion of \<open>size_t iterations = time_period / delta_time\<close>, with no value where the C
  conversion is undefined.
\<close>

record ('f, 'd) arith =
  flit :: "rat \<Rightarrow> 'f"
  fadd :: "'f \<Rightarrow> 'f \<Rightarrow> 'f"
  fsub :: "'f \<Rightarrow> 'f \<Rightarrow> 'f"
  fmul :: "'f \<Rightarrow> 'f \<Rightarrow> 'f"
  fdiv :: "'f \<Rightarrow> 'f \<Rightarrow> 'f"
  sqrtf :: "'f \<Rightarrow> 'f"
  cosf :: "'f \<Rightarrow> 'f"
  sinf :: "'f \<Rightarrow> 'f"
  float_of_size :: "size_t \<Rightarrow> 'f"
  float_of_int :: "int \<Rightarrow> 'f"
  size_of_float :: "'f \<Rightarrow> size_t option"
  double_of_float :: "'f \<Rightarrow> 'd"
  float_of_double :: "'d \<Rightarrow> 'f"
  dmul :: "'d \<Rightarrow> 'd \<Rightarrow> 'd"
  dadd :: "'d \<Rightarrow> 'd \<Rightarrow> 'd"
  M_PI :: "'d"

text \<open>
  The C library as the program sees it: the two parsers, the values \<open>rand()\<close> returns call
  after call (the program never seeds it), \<open>RAND_MAX\<close>, which requests \<open>malloc\<close> grants (by
  their size in bytes), and what a freshly allocated \<open>float\<close> holds.
\<close>

record 'f libc =
  strtof :: "string \<Rightarrow> 'f"
  strtol :: "string \<Rightarrow> int"
  rand_seq :: "nat \<Rightarrow> int"
  RAND_MAX :: "int"
  malloc_ok :: "size_t \<Rightarrow> bool"
  junk :: "'f"

text \<open>
  A line of standard output: \<open>%zu\<close>, \<open>%f\<close> or \<open>%f %f\<close>. The standard output of a run is
  the lines the program has passed to \<open>printf\<close>, in order; whether a line still in the
  buffer of the stream reaches the device when an assertion aborts the process is left to
  the C library. The diagnostics are what went to \<open>stderr\<close>.
\<close>

datatype 'f line = Count size_t | Scalar 'f | Vector 'f 'f

datatype diagnostic = Usage string

datatype assertion =
  Bodies_Not_Null | Accelerations_Not_Null | Count_Divisible | Sub_Bodies_Not_Null

datatype status = Returned int | Aborted assertion | Runtime_Failure

record 'f run =
  stdout :: "'f line list"
  stderr :: "diagnostic list"
  status :: status

subsection \<open>Utilities and the generator\<close>

text \<open>\<open>unit_random\<close>; the state is the number of calls of \<open>rand()\<close> made so far.\<close>

definition unit_random :: "('f, 'd) arith \<Rightarrow> 'f libc \<Rightarrow> nat \<Rightarrow> 'f \<times> nat" where
  "unit_random A E n =
     (fdiv A (float_of_int A (rand_seq E n)) (float_of_int A (RAND_MAX E)), Suc n)"

text \<open>
  The loop of \<open>generate_debug_data\<close> over the indices still to visit. The two globals it
  reads, \<open>initial_body_mass\<close> and \<open>debug_acceleration_scale\<close>, are arguments.
\<close>

fun generate_debug_data_loop ::
  "('f, 'd) arith \<Rightarrow> 'f libc \<Rightarrow> 'f \<Rightarrow> 'f \<Rightarrow> size_t \<Rightarrow> nat list \<Rightarrow>
   'f body list \<times> nat \<Rightarrow> ('f body list \<times> nat) option" where
  "generate_debug_data_loop A E initial_body_mass debug_acceleration_scale body_count [] s =
     Some s"
| "generate_debug_data_loop A E initial_body_mass debug_acceleration_scale body_count
     (i # is) (bodies, n0) =
     (if i < length bodies then
        (let (u, n1) = unit_random A E n0;
             angle = float_of_double A
               (dadd A
                 (dmul A
                   (double_of_float A
                     (fmul A (fdiv A (float_of_size A (of_nat i)) (float_of_size A body_count))
                        (flit A 2)))
                   (M_PI A))
                 (double_of_float A (fmul A (fsub A u (flit A (1/2))) (flit A (1/2)))));
             (p_x, n2) = unit_random A E n1;
             (p_y, n3) = unit_random A E n2;
             (um, n4) = unit_random A E n3;
             bmass = fmul A initial_body_mass (fadd A um (flit A (1/2)));
             (random, n5) = unit_random A E n4;
             bvx = fmul A (fmul A (cosf A angle) debug_acceleration_scale) random;
             bvy = fmul A (fmul A (sinf A angle) debug_acceleration_scale) random
         in generate_debug_data_loop A E initial_body_mass debug_acceleration_scale body_count
              is
              (bodies[i := \<lparr>x = p_x, y = p_y, ax = flit A 0, ay = flit A 0,
                             vx = bvx, vy = bvy, mass = bmass\<rparr>], n5))
      else None)"

definition generate_debug_data ::
  "('f, 'd) arith \<Rightarrow> 'f libc \<Rightarrow> 'f \<Rightarrow> 'f \<Rightarrow> 'f body list \<Rightarrow> size_t \<Rightarrow>
   ('f body list \<times> nat) option" where
  "generate_debug_data A E initial_body_mass debug_acceleration_scale bodies body_count =
     generate_debug_data_loop A E initial_body_mass debug_acceleration_scale body_count
       [0..<unat body_count] (bodies, 0)"

subsection \<open>The force kernel and the integrator\<close>

text \<open>
  \<open>calculate_newton_gravity_acceleration\<close>; the global
  \<open>simulation_softening_length_squared\<close> is an argument, the two output pointers are the
  result.
\<close>

definition calculate_newton_gravity_acceleration ::
  "('f, 'd) arith \<Rightarrow> 'f \<Rightarrow> 'f body \<Rightarrow> 'f body \<Rightarrow> 'f \<times> 'f" where
  "calculate_newton_gravity_acceleration A simulation_softening_length_squared
     first_body second_body =
     (let galactic_plane_r_x = fsub A (x second_body) (x first_body);
          galactic_plane_r_y = fsub A (y second_body) (y first_body);
          distance_squared =
            fadd A
              (fadd A (fmul A galactic_plane_r_x galactic_plane_r_x)
                      (fmul A galactic_plane_r_y galactic_plane_r_y))
              simulation_softening_length_squared;
          distance_squared_cubed =
            fmul A (fmul A distance_squared distance_squared) distance_squared;
          inverse = fdiv A (flit A 1) (sqrtf A distance_squared_cubed);
          scale = fmul A (mass second_body) inverse
      in (fadd A (flit A 0) (fmul A galactic_plane_r_x scale),
          fadd A (flit A 0) (fmul A galactic_plane_r_y scale)))"

definition integrate :: "('f, 'd) arith \<Rightarrow> 'f body \<Rightarrow> 'f \<Rightarrow> 'f body" where
  "integrate A body delta_time =
     (let b1 = body\<lparr>vx := fadd A (vx body) (fmul A (ax body) delta_time)\<rparr>;
          b2 = b1\<lparr>vy := fadd A (vy b1) (fmul A (ay b1) delta_time)\<rparr>;
          b3 = b2\<lparr>x := fadd A (x b2) (fmul A (vx b2) delta_time)\<rparr>
      in b3\<lparr>y := fadd A (y b3) (fmul A (vy b3) delta_time)\<rparr>)"

subsection \<open>One iteration\<close>

text \<open>
  An array is the list of its elements, and a loop over an index is a recursion over the
  list of the values the index takes, in order; every access checks the index against the
  length of the array, and the loop stops with \<open>None\<close> at the first access that fails. (An
  index of type \<open>size_t\<close> would wrap only after \<open>2\<^sup>6\<^sup>4 - 1\<close>, an index no array of the
  program holds.)

  The loop over \<open>j\<close> inside the loop over \<open>i\<close>: the sum of the kernel over every body but
  \<open>bodies[i]\<close> itself (the source compares the two pointers, that is the two indices).
\<close>

fun accumulate ::
  "('f, 'd) arith \<Rightarrow> 'f \<Rightarrow> 'f body list \<Rightarrow> nat \<Rightarrow> nat list \<Rightarrow> 'f \<times> 'f \<Rightarrow> ('f \<times> 'f) option" where
  "accumulate A softening2 bodies i [] totals = Some totals"
| "accumulate A softening2 bodies i (j # js) (total_ax, total_ay) =
     (if j < length bodies then
        (if i = j then accumulate A softening2 bodies i js (total_ax, total_ay)
         else
           (let (a_x, a_y) =
                  calculate_newton_gravity_acceleration A softening2 (bodies ! i) (bodies ! j)
            in accumulate A softening2 bodies i js
                 (fadd A total_ax a_x, fadd A total_ay a_y)))
      else None)"

text \<open>The loop over \<open>i\<close>, from \<open>begin\<close> to \<open>end\<close> inclusive, filling \<open>sub_bodies\<close>.\<close>

fun compute_loop ::
  "('f, 'd) arith \<Rightarrow> 'f \<Rightarrow> size_t \<Rightarrow> 'f body list \<Rightarrow> nat list \<Rightarrow> nat \<Rightarrow> 'f body list \<Rightarrow>
   'f body list option" where
  "compute_loop A softening2 body_count bodies [] sub_i sub_bodies = Some sub_bodies"
| "compute_loop A softening2 body_count bodies (i # is) sub_i sub_bodies =
     (if i < length bodies then
        (case accumulate A softening2 bodies i [0..<unat body_count] (flit A 0, flit A 0) of
           None \<Rightarrow> None
         | Some (total_ax, total_ay) \<Rightarrow>
             (if sub_i < length sub_bodies then
                compute_loop A softening2 body_count bodies is (Suc sub_i)
                  (sub_bodies[sub_i := (bodies ! i)\<lparr>ax := total_ax, ay := total_ay\<rparr>])
              else None))
      else None)"

text \<open>
  What one rank does between the broadcast and the gather: it computes \<open>begin\<close> and \<open>end\<close>
  in \<open>size_t\<close> arithmetic and runs the loop over \<open>i\<close>.
\<close>

definition loop_begin :: "size_t \<Rightarrow> nat \<Rightarrow> size_t" where
  "loop_begin bodies_per_process rank = of_nat rank * bodies_per_process"

definition loop_end :: "size_t \<Rightarrow> size_t \<Rightarrow> nat \<Rightarrow> size_t" where
  "loop_end body_count bodies_per_process rank =
     (let end0 = loop_begin bodies_per_process rank + bodies_per_process - 1
      in if end0 \<ge> body_count then body_count - 1 else end0)"

definition compute_phase ::
  "('f, 'd) arith \<Rightarrow> 'f \<Rightarrow> size_t \<Rightarrow> size_t \<Rightarrow> nat \<Rightarrow> 'f body list \<Rightarrow> 'f body list \<Rightarrow>
   'f body list option" where
  "compute_phase A softening2 body_count bodies_per_process rank bodies sub_bodies =
     compute_loop A softening2 body_count bodies
       [unat (loop_begin bodies_per_process rank) ..<
        Suc (unat (loop_end body_count bodies_per_process rank))]
       0 sub_bodies"

text \<open>Every rank's compute phase, rank by rank; the list holds each rank's \<open>sub_bodies\<close>.\<close>

fun compute_all ::
  "('f, 'd) arith \<Rightarrow> 'f \<Rightarrow> size_t \<Rightarrow> size_t \<Rightarrow> 'f body list \<Rightarrow> nat \<Rightarrow> 'f body list list \<Rightarrow>
   'f body list list option" where
  "compute_all A softening2 body_count bodies_per_process bodies rank [] = Some []"
| "compute_all A softening2 body_count bodies_per_process bodies rank (sub_bodies # rest) =
     do {
       s \<leftarrow> compute_phase A softening2 body_count bodies_per_process rank bodies sub_bodies;
       ss \<leftarrow> compute_all A softening2 body_count bodies_per_process bodies (Suc rank) rest;
       Some (s # ss)
     }"

text \<open>
  The two collectives, as rank 0 sees them. \<open>MPI_Bcast\<close> leaves on every rank the first
  \<open>count\<close> bodies of rank 0; \<open>MPI_Gather\<close> stores the first \<open>count\<close> elements of every rank's
  buffer, in rank order, at the start of rank 0's array. Their counts are \<open>int\<close>.
\<close>

definition MPI_Bcast :: "'f body list \<Rightarrow> size_t \<Rightarrow> 'f body list option" where
  "MPI_Bcast bodies count =
     (if unat count < 2 ^ 31 \<and> unat count \<le> length bodies then Some bodies else None)"

definition MPI_Gather :: "'f body list list \<Rightarrow> size_t \<Rightarrow> 'f body list \<Rightarrow> 'f body list option" where
  "MPI_Gather sends count recv =
     (if unat count < 2 ^ 31 \<and> list_all (\<lambda>s. unat count \<le> length s) sends \<and>
         length sends * unat count \<le> length recv
      then Some (concat (map (take (unat count)) sends) @ drop (length sends * unat count) recv)
      else None)"

text \<open>Rank 0 after the gather: integrate every body and record its acceleration.\<close>

fun integrate_loop ::
  "('f, 'd) arith \<Rightarrow> 'f \<Rightarrow> nat list \<Rightarrow> 'f body list \<times> 'f list \<times> nat \<Rightarrow>
   ('f body list \<times> 'f list \<times> nat) option" where
  "integrate_loop A delta_time [] s = Some s"
| "integrate_loop A delta_time (i # is) (bodies, accelerations, next_acceleration) =
     (if i < length bodies \<and> Suc next_acceleration < length accelerations then
        (let body = integrate A (bodies ! i) delta_time
         in integrate_loop A delta_time is
              (bodies[i := body],
               accelerations[next_acceleration := ax body, Suc next_acceleration := ay body],
               next_acceleration + 2))
      else None)"

text \<open>
  The state of the run between iterations: rank 0's \<open>bodies\<close>, every rank's \<open>sub_bodies\<close>,
  rank 0's \<open>accelerations\<close> and \<open>next_acceleration\<close>.
\<close>

type_synonym 'f world = "'f body list \<times> 'f body list list \<times> 'f list \<times> nat"

definition iteration ::
  "('f, 'd) arith \<Rightarrow> 'f \<Rightarrow> 'f \<Rightarrow> size_t \<Rightarrow> size_t \<Rightarrow> 'f world \<Rightarrow> 'f world option" where
  "iteration A softening2 delta_time body_count bodies_per_process w =
     (case w of (bodies, subs, accelerations, next_acceleration) \<Rightarrow>
        do {
          bodies1 \<leftarrow> MPI_Bcast bodies body_count;
          subs1 \<leftarrow> compute_all A softening2 body_count bodies_per_process bodies1 0 subs;
          bodies2 \<leftarrow> MPI_Gather subs1 bodies_per_process bodies1;
          (bodies3, accelerations1, next1) \<leftarrow>
            integrate_loop A delta_time [0..<unat body_count]
              (bodies2, accelerations, next_acceleration);
          Some (bodies3, subs1, accelerations1, next1)
        })"

fun simulation_loop ::
  "('f, 'd) arith \<Rightarrow> 'f \<Rightarrow> 'f \<Rightarrow> size_t \<Rightarrow> size_t \<Rightarrow> nat list \<Rightarrow> 'f world \<Rightarrow> 'f world option" where
  "simulation_loop A softening2 delta_time body_count bodies_per_process [] w = Some w"
| "simulation_loop A softening2 delta_time body_count bodies_per_process (k # ks) w =
     do {
       w1 \<leftarrow> iteration A softening2 delta_time body_count bodies_per_process w;
       simulation_loop A softening2 delta_time body_count bodies_per_process ks w1
     }"

subsection \<open>The program\<close>

text \<open>
  \<open>malloc(sizeof(element) * n)\<close>: the product wraps as \<open>size_t\<close> does; the result is the
  number of elements the granted block holds. \<open>sizeof(body_t)\<close> is 28 (seven \<open>float\<close>s of
  four bytes), \<open>sizeof(float)\<close> is 4.
\<close>

definition malloc :: "'f libc \<Rightarrow> nat \<Rightarrow> size_t \<Rightarrow> nat option" where
  "malloc E element_size n =
     (let bytes = of_nat element_size * n
      in if malloc_ok E bytes then Some (unat bytes div element_size) else None)"

definition junk_body :: "'f libc \<Rightarrow> 'f body" where
  "junk_body E =
     \<lparr>x = junk E, y = junk E, ax = junk E, ay = junk E, vx = junk E, vy = junk E,
      mass = junk E\<rparr>"

definition print_body :: "'f body \<Rightarrow> 'f line list" where
  "print_body body =
     [Vector (x body) (y body), Vector (ax body) (ay body), Vector (vx body) (vy body),
      Scalar (mass body)]"

text \<open>The first phase of the output: the three header lines and four lines per body.\<close>

definition print_snapshot :: "size_t \<Rightarrow> 'f \<Rightarrow> 'f \<Rightarrow> 'f body list \<Rightarrow> 'f line list" where
  "print_snapshot body_count time_period delta_time bodies =
     Count body_count # Scalar time_period # Scalar delta_time #
     concat (map (\<lambda>i. print_body (bodies ! i)) [0..<unat body_count])"

text \<open>
  The second phase: \<open>for (i = 0; i < acceleration_entries; i += 2)\<close>, over the indices still
  to visit. The flag is false when a read left the array.
\<close>

fun print_accelerations :: "'f list \<Rightarrow> nat list \<Rightarrow> 'f line list \<times> bool" where
  "print_accelerations accelerations [] = ([], True)"
| "print_accelerations accelerations (i # is) =
     (if Suc i < length accelerations then
        (let (lines, ok) = print_accelerations accelerations is
         in (Vector (accelerations ! i) (accelerations ! Suc i) # lines, ok))
      else ([], False))"

text \<open>
  The block \<open>if (rank == 0)\<close> before the loop: generate the bodies, print the snapshot,
  allocate \<open>accelerations\<close>.
\<close>

definition coordinator_setup ::
  "('f, 'd) arith \<Rightarrow> 'f libc \<Rightarrow> 'f \<Rightarrow> 'f \<Rightarrow> 'f \<Rightarrow> 'f \<Rightarrow> size_t \<Rightarrow> size_t \<Rightarrow> 'f body list \<Rightarrow>
   'f line list \<times> (status + 'f body list \<times> 'f list)" where
  "coordinator_setup A E initial_body_mass debug_acceleration_scale time_period delta_time
     body_count acceleration_entries bodies =
     (case generate_debug_data A E initial_body_mass debug_acceleration_scale bodies body_count of
        None \<Rightarrow> ([], Inl Runtime_Failure)
      | Some (bodies1, n) \<Rightarrow>
          (let out = print_snapshot body_count time_period delta_time bodies1
           in case malloc E 4 acceleration_entries of
                None \<Rightarrow> (out, Inl (Aborted Accelerations_Not_Null))
              | Some capacity \<Rightarrow> (out, Inr (bodies1, replicate capacity (junk E)))))"

text \<open>What a rank holds when it reaches the loop.\<close>

record 'f process =
  p_delta_time :: 'f
  p_body_count :: size_t
  p_softening2 :: 'f
  p_iterations :: size_t
  p_acceleration_entries :: size_t
  p_bodies :: "'f body list"
  p_accelerations :: "'f list"
  p_bodies_per_process :: size_t
  p_sub_bodies :: "'f body list"

datatype 'f started = Stopped "'f run" | Ready "'f line list" "'f process"

text \<open>
  \<open>main\<close> on one rank, from its first line to the loop, in the order of the source: the
  argument count, the parameters, \<open>bodies\<close>, \<open>iterations\<close>, the block of rank 0, the
  assertion on the body count, \<open>sub_bodies\<close>.
\<close>

definition startup ::
  "('f, 'd) arith \<Rightarrow> 'f libc \<Rightarrow> nat \<Rightarrow> nat \<Rightarrow> string list \<Rightarrow> 'f started" where
  "startup A E world_size rank argv =
     (if length argv < 6 then
        Stopped \<lparr>stdout = [], stderr = [Usage (case argv of [] \<Rightarrow> [] | a # _ \<Rightarrow> a)],
                 status = Returned 1\<rparr>
      else
        (let time_period = strtof E (argv ! 1);
             delta_time = strtof E (argv ! 2);
             body_count = (word_of_int (strtol E (argv ! 3)) :: size_t);
             initial_body_mass = strtof E (argv ! 4);
             softening_length = strtof E (argv ! 5);
             simulation_softening_length_squared = fmul A softening_length softening_length;
             debug_acceleration_scale =
               (if length argv > 6 then strtof E (argv ! 6) else flit A 100);
             ws = (of_nat world_size :: size_t);
             mpi_body_count =
               body_count + (if body_count mod ws \<noteq> 0 then ws - body_count mod ws else 0)
         in case malloc E 28 mpi_body_count of
              None \<Rightarrow> Stopped \<lparr>stdout = [], stderr = [], status = Aborted Bodies_Not_Null\<rparr>
            | Some capacity \<Rightarrow>
          (case size_of_float A (fdiv A time_period delta_time) of
              None \<Rightarrow> Stopped \<lparr>stdout = [], stderr = [], status = Runtime_Failure\<rparr>
            | Some iterations \<Rightarrow>
          (let acceleration_entries = iterations * body_count * 2;
               bodies = replicate capacity (junk_body E)
           in case (if rank = 0 then
                      coordinator_setup A E initial_body_mass debug_acceleration_scale
                        time_period delta_time body_count acceleration_entries bodies
                    else ([], Inr (bodies, []))) of
                (out, Inl failure) \<Rightarrow> Stopped \<lparr>stdout = out, stderr = [], status = failure\<rparr>
              | (out, Inr (bodies1, accelerations)) \<Rightarrow>
          (if body_count mod ws \<noteq> 0 then
             Stopped \<lparr>stdout = out, stderr = [], status = Aborted Count_Divisible\<rparr>
           else
             (let bodies_per_process = body_count div ws
              in case malloc E 28 bodies_per_process of
                   None \<Rightarrow>
                     Stopped \<lparr>stdout = out, stderr = [], status = Aborted Sub_Bodies_Not_Null\<rparr>
                 | Some sub_capacity \<Rightarrow>
                     Ready out
                       \<lparr>p_delta_time = delta_time, p_body_count = body_count,
                        p_softening2 = simulation_softening_length_squared,
                        p_iterations = iterations,
                        p_acceleration_entries = acceleration_entries,
                        p_bodies = bodies1, p_accelerations = accelerations,
                        p_bodies_per_process = bodies_per_process,
                        p_sub_bodies = replicate sub_capacity (junk_body E)\<rparr>))))))"

text \<open>
  The whole run, as its launcher sees it: the standard output and the diagnostics of rank
  0 (no other rank prints after the argument check) and how the run ended. The ranks hold
  the same parameters, so they leave \<open>startup\<close> the same way; in the loop they meet at the
  two collectives, and rank 0 receives what every rank computed.
\<close>

definition main :: "('f, 'd) arith \<Rightarrow> 'f libc \<Rightarrow> nat \<Rightarrow> string list \<Rightarrow> 'f run" where
  "main A E world_size argv =
     (case startup A E world_size 0 argv of
        Stopped r \<Rightarrow> r
      | Ready out p \<Rightarrow>
          (case simulation_loop A (p_softening2 p) (p_delta_time p) (p_body_count p)
                  (p_bodies_per_process p) [0..<unat (p_iterations p)]
                  (p_bodies p, replicate world_size (p_sub_bodies p), p_accelerations p, 0) of
             None \<Rightarrow> \<lparr>stdout = out, stderr = [], status = Runtime_Failure\<rparr>
           | Some (bodies, subs, accelerations, next_acceleration) \<Rightarrow>
               (let (lines, ok) =
                      print_accelerations accelerations
                        (map (\<lambda>k. 2 * k) [0..<(unat (p_acceleration_entries p) + 1) div 2])
                in \<lparr>stdout = out @ lines, stderr = [],
                    status = (if ok then Returned 0 else Runtime_Failure)\<rparr>)))"

subsection \<open>Exact arithmetic\<close>

text \<open>
  The interpretation of \<open>arith\<close> in which every operation is the exact one on the reals. A
  value is \<open>None\<close> once a division by zero or the square root of a negative number has
  produced it, and stays so through every later operation; the conversion to \<open>size_t\<close>
  truncates towards zero and has no value outside the range of \<open>size_t\<close>.
\<close>

definition lift2 :: "(real \<Rightarrow> real \<Rightarrow> real) \<Rightarrow> real option \<Rightarrow> real option \<Rightarrow> real option" where
  "lift2 f a b = (case (a, b) of (Some u, Some v) \<Rightarrow> Some (f u v) | _ \<Rightarrow> None)"

definition ideal_div :: "real option \<Rightarrow> real option \<Rightarrow> real option" where
  "ideal_div a b =
     (case (a, b) of (Some u, Some v) \<Rightarrow> if v = 0 then None else Some (u / v) | _ \<Rightarrow> None)"

definition ideal_sqrt :: "real option \<Rightarrow> real option" where
  "ideal_sqrt a = (case a of Some u \<Rightarrow> if u < 0 then None else Some (sqrt u) | None \<Rightarrow> None)"

definition ideal_size :: "real option \<Rightarrow> size_t option" where
  "ideal_size a =
     (case a of
        Some u \<Rightarrow> if - 1 < u \<and> u < 2 ^ 64 then Some (of_nat (nat \<lfloor>u\<rfloor>)) else None
      | None \<Rightarrow> None)"

definition ideal :: "(real option, real option) arith" where
  "ideal =
     \<lparr>flit = (\<lambda>q. Some (of_rat q)),
      fadd = lift2 (+), fsub = lift2 (-), fmul = lift2 (*), fdiv = ideal_div,
      sqrtf = ideal_sqrt, cosf = map_option cos, sinf = map_option sin,
      float_of_size = (\<lambda>n. Some (real (unat n))),
      float_of_int = (\<lambda>i. Some (real_of_int i)),
      size_of_float = ideal_size,
      double_of_float = id, float_of_double = id,
      dmul = lift2 (*), dadd = lift2 (+), M_PI = Some pi\<rparr>"

subsection \<open>Binary floating point\<close>

text \<open>
  A value of a binary format: a finite number \<open>(-1)\<^sup>s \<sqdot> m \<sqdot> 2\<^sup>e\<close>, an infinity or a NaN. A
  format gives the number of bits of \<open>m\<close> and the range of \<open>e\<close>; in a result, \<open>m\<close> has all
  its bits or \<open>e\<close> is the least exponent (a subnormal number or a zero).
\<close>

datatype fp = Finite bool int int | Infinity bool | NaN

record format =
  precision :: nat
  e_min :: int
  e_max :: int

definition binary32 :: format where
  "binary32 = \<lparr>precision = 24, e_min = - 149, e_max = 104\<rparr>"

definition binary64 :: format where
  "binary64 = \<lparr>precision = 53, e_min = - 1074, e_max = 971\<rparr>"

text \<open>The number of bits of a mantissa.\<close>

function bit_length :: "int \<Rightarrow> int" where
  "bit_length n = (if n \<le> 0 then 0 else 1 + bit_length (n div 2))"
  by pat_completeness auto
termination
  by (relation "measure nat") auto

declare bit_length.simps [simp del]

text \<open>
  Rounding \<open>M \<sqdot> 2\<^sup>E\<close> to the nearest value of the format, a tie to the even mantissa: the
  exponent of the result is that of the last bit kept, never below the least one; what
  exceeds the largest finite value becomes an infinity.
\<close>

definition finish :: "format \<Rightarrow> bool \<Rightarrow> int \<Rightarrow> int \<Rightarrow> fp" where
  "finish F s m e = (if e_max F < e then Infinity s else Finite s m e)"

definition round_to :: "format \<Rightarrow> bool \<Rightarrow> int \<Rightarrow> int \<Rightarrow> fp" where
  "round_to F s M E =
     (if M = 0 then Finite s 0 (e_min F)
      else
        (let e = max (E + bit_length M - int (precision F)) (e_min F)
         in if e \<le> E then finish F s (M * 2 ^ nat (E - e)) e
            else
              (let sh = nat (e - E);
                   q = M div 2 ^ sh;
                   r = M mod 2 ^ sh;
                   half = 2 ^ (sh - 1);
                   q1 = (if half < r \<or> (r = half \<and> odd q) then q + 1 else q)
               in if q1 = 2 ^ precision F then finish F s (2 ^ (precision F - 1)) (e + 1)
                  else finish F s q1 e)))"

text \<open>
  The operations: the exact result, rounded. Addition aligns the two mantissas; division
  and the square root compute two bits more than the format keeps and one bit that tells
  whether anything is left, which is enough to round correctly.
\<close>

fun fp_neg :: "fp \<Rightarrow> fp" where
  "fp_neg (Finite s m e) = Finite (\<not> s) m e"
| "fp_neg (Infinity s) = Infinity (\<not> s)"
| "fp_neg NaN = NaN"

fun fp_add :: "format \<Rightarrow> fp \<Rightarrow> fp \<Rightarrow> fp" where
  "fp_add F (Finite s m e) (Finite t n f) =
     (let g = min e f;
          z = (if s then - m else m) * 2 ^ nat (e - g) + (if t then - n else n) * 2 ^ nat (f - g)
      in if z = 0 then Finite (s \<and> t) 0 (e_min F) else round_to F (z < 0) \<bar>z\<bar> g)"
| "fp_add F (Finite s m e) (Infinity t) = Infinity t"
| "fp_add F (Infinity s) (Finite t n f) = Infinity s"
| "fp_add F (Infinity s) (Infinity t) = (if s = t then Infinity s else NaN)"
| "fp_add F a b = NaN"

definition fp_sub :: "format \<Rightarrow> fp \<Rightarrow> fp \<Rightarrow> fp" where
  "fp_sub F a b = fp_add F a (fp_neg b)"

fun fp_mul :: "format \<Rightarrow> fp \<Rightarrow> fp \<Rightarrow> fp" where
  "fp_mul F (Finite s m e) (Finite t n f) = round_to F (s \<noteq> t) (m * n) (e + f)"
| "fp_mul F (Finite s m e) (Infinity t) = (if m = 0 then NaN else Infinity (s \<noteq> t))"
| "fp_mul F (Infinity s) (Finite t n f) = (if n = 0 then NaN else Infinity (s \<noteq> t))"
| "fp_mul F (Infinity s) (Infinity t) = Infinity (s \<noteq> t)"
| "fp_mul F a b = NaN"

fun fp_div :: "format \<Rightarrow> fp \<Rightarrow> fp \<Rightarrow> fp" where
  "fp_div F (Finite s m e) (Finite t n f) =
     (if n = 0 then (if m = 0 then NaN else Infinity (s \<noteq> t))
      else if m = 0 then Finite (s \<noteq> t) 0 (e_min F)
      else
        (let k = nat (int (precision F) + 2 + bit_length n);
             q = (m * 2 ^ k) div n;
             r = (m * 2 ^ k) mod n
         in round_to F (s \<noteq> t) (4 * q + (if r = 0 then 0 else 1)) (e - f - int k - 2)))"
| "fp_div F (Finite s m e) (Infinity t) = Finite (s \<noteq> t) 0 (e_min F)"
| "fp_div F (Infinity s) (Finite t n f) = Infinity (s \<noteq> t)"
| "fp_div F a b = NaN"

primrec root_bits :: "nat \<Rightarrow> int \<Rightarrow> int \<Rightarrow> int" where
  "root_bits 0 M r = r"
| "root_bits (Suc k) M r =
     (let c = r + 2 ^ k in root_bits k M (if c * c \<le> M then c else r))"

definition integer_root :: "int \<Rightarrow> int" where
  "integer_root M = root_bits (nat (bit_length M)) M 0"

fun fp_sqrt :: "format \<Rightarrow> fp \<Rightarrow> fp" where
  "fp_sqrt F (Finite s m e) =
     (if m = 0 then Finite s 0 (e_min F)
      else if s then NaN
      else
        (let sh = 2 * (precision F + 2) + (if even e then 0 else 1);
             M = m * 2 ^ sh;
             r = integer_root M
         in round_to F False (4 * r + (if r * r = M then 0 else 1))
              ((e - int sh) div 2 - 2)))"
| "fp_sqrt F (Infinity s) = (if s then NaN else Infinity False)"
| "fp_sqrt F NaN = NaN"

text \<open>
  The conversions: between formats, from a literal, and to \<open>size_t\<close> (truncation, with no
  value where C leaves the conversion undefined).
\<close>

fun fp_convert :: "format \<Rightarrow> fp \<Rightarrow> fp" where
  "fp_convert F (Finite s m e) = round_to F s m e"
| "fp_convert F a = a"

definition fp_of_rat :: "format \<Rightarrow> rat \<Rightarrow> fp" where
  "fp_of_rat F q =
     (case quotient_of q of (n, d) \<Rightarrow> fp_div F (Finite (n < 0) \<bar>n\<bar> 0) (Finite False d 0))"

fun fp_to_size :: "fp \<Rightarrow> size_t option" where
  "fp_to_size (Finite s m e) =
     (let t = (if 0 \<le> e then m * 2 ^ nat e else m div 2 ^ nat (- e))
      in if s \<and> 0 < t then None else if t < 2 ^ 64 then Some (word_of_int t) else None)"
| "fp_to_size a = None"

text \<open>
  The arithmetic of the machine: \<open>float\<close> is binary32, \<open>double\<close> is binary64, every operation
  is rounded to its format. IEEE 754 does not fix \<open>cosf\<close> and \<open>sinf\<close>: they are arguments.
\<close>

definition ieee :: "(fp \<Rightarrow> fp) \<Rightarrow> (fp \<Rightarrow> fp) \<Rightarrow> (fp, fp) arith" where
  "ieee libm_cosf libm_sinf =
     \<lparr>flit = fp_of_rat binary32,
      fadd = fp_add binary32, fsub = fp_sub binary32, fmul = fp_mul binary32,
      fdiv = fp_div binary32, sqrtf = fp_sqrt binary32,
      cosf = libm_cosf, sinf = libm_sinf,
      float_of_size = (\<lambda>n. round_to binary32 False (uint n) 0),
      float_of_int = (\<lambda>i. round_to binary32 (i < 0) \<bar>i\<bar> 0),
      size_of_float = fp_to_size,
      double_of_float = fp_convert binary64, float_of_double = fp_convert binary32,
      dmul = fp_mul binary64, dadd = fp_add binary64,
      M_PI = Finite False 7074237752028440 (- 51)\<rparr>"

subsection \<open>The value of a binary floating-point number\<close>

text \<open>
  For the statements about binary32: \<open>pw e\<close> is the real number \<open>2\<^sup>e\<close>; \<open>valof\<close> is the real
  number a finite value stands for; a value \<open>is_finite\<close> when it is neither an infinity nor
  a NaN, and a \<open>binary32_value\<close> when moreover its mantissa fits 24 bits. \<open>at_most j\<close> holds
  of the finite values of magnitude at most \<open>2\<^sup>j\<close>, \<open>at_least j\<close> of the positive values from
  \<open>2\<^sup>j\<close> upwards, \<open>+\<infinity>\<close> included, \<open>not_negative\<close> of the values with a positive sign.
  \<open>exact\<close> reads a finite value as the number of exact arithmetic that it stands for.
\<close>

abbreviation pw :: "int \<Rightarrow> real" where
  "pw e \<equiv> 2 powr real_of_int e"

definition valof :: "fp \<Rightarrow> real" where
  "valof a =
     (case a of
        Finite s m e \<Rightarrow> (if s then - 1 else 1) * (real_of_int m * 2 powr real_of_int e)
      | _ \<Rightarrow> 0)"

definition is_finite :: "fp \<Rightarrow> bool" where
  "is_finite a = (case a of Finite s m e \<Rightarrow> 0 \<le> m | _ \<Rightarrow> False)"


definition at_least :: "int \<Rightarrow> fp \<Rightarrow> bool" where
  "at_least j a = (a = Infinity False \<or> is_finite a \<and> 2 powr real_of_int j \<le> valof a)"

definition at_most :: "int \<Rightarrow> fp \<Rightarrow> bool" where
  "at_most j a = (is_finite a \<and> \<bar>valof a\<bar> \<le> 2 powr real_of_int j)"

definition not_negative :: "fp \<Rightarrow> bool" where
  "not_negative a =
     (case a of Finite s m e \<Rightarrow> \<not> s \<and> 0 \<le> m | Infinity s \<Rightarrow> \<not> s | NaN \<Rightarrow> False)"

definition exact :: "fp \<Rightarrow> real option" where
  "exact a = (if is_finite a then Some (valof a) else None)"


subsection \<open>The loops in closed form\<close>

text \<open>
  What the loops above compute when no access leaves an array, written without the
  arrays' bounds: the sum over \<open>j\<close>, the body a rank stores for index \<open>i\<close>, every rank's
  slice, one iteration and \<open>k\<close> iterations of the whole array, and the accelerations they
  record. The lemmas of the next section prove each equal to its loop.
\<close>

definition add_contribution ::
  "('f, 'd) arith \<Rightarrow> 'f \<Rightarrow> 'f body list \<Rightarrow> nat \<Rightarrow> 'f \<times> 'f \<Rightarrow> nat \<Rightarrow> 'f \<times> 'f" where
  "add_contribution A softening2 bodies i totals j =
     (if i = j then totals
      else (fadd A (fst totals)
              (fst (calculate_newton_gravity_acceleration A softening2 (bodies ! i) (bodies ! j))),
            fadd A (snd totals)
              (snd (calculate_newton_gravity_acceleration A softening2 (bodies ! i) (bodies ! j)))))"

definition total_acceleration ::
  "('f, 'd) arith \<Rightarrow> 'f \<Rightarrow> size_t \<Rightarrow> 'f body list \<Rightarrow> nat \<Rightarrow> 'f \<times> 'f" where
  "total_acceleration A softening2 body_count bodies i =
     foldl (add_contribution A softening2 bodies i) (flit A 0, flit A 0) [0..<unat body_count]"

definition accelerated :: "('f, 'd) arith \<Rightarrow> 'f \<Rightarrow> size_t \<Rightarrow> 'f body list \<Rightarrow> nat \<Rightarrow> 'f body" where
  "accelerated A softening2 body_count bodies i =
     (bodies ! i)\<lparr>ax := fst (total_acceleration A softening2 body_count bodies i),
                  ay := snd (total_acceleration A softening2 body_count bodies i)\<rparr>"

definition advance :: "('f, 'd) arith \<Rightarrow> 'f \<Rightarrow> 'f \<Rightarrow> size_t \<Rightarrow> 'f body list \<Rightarrow> 'f body list" where
  "advance A softening2 delta_time body_count bodies =
     map (\<lambda>i. integrate A (accelerated A softening2 body_count bodies i) delta_time)
       [0..<unat body_count]"

definition recorded :: "'f body list \<Rightarrow> 'f list" where
  "recorded bodies = concat (map (\<lambda>b. [ax b, ay b]) bodies)"

definition slices ::
  "('f, 'd) arith \<Rightarrow> 'f \<Rightarrow> size_t \<Rightarrow> nat \<Rightarrow> 'f body list \<Rightarrow> 'f body list list" where
  "slices A softening2 body_count world_size bodies =
     map (\<lambda>r. map (accelerated A softening2 body_count bodies)
                [r * (unat body_count div world_size) ..<
                 r * (unat body_count div world_size) + unat body_count div world_size])
       [0..<world_size]"

primrec advance_by ::
  "('f, 'd) arith \<Rightarrow> 'f \<Rightarrow> 'f \<Rightarrow> size_t \<Rightarrow> nat \<Rightarrow> 'f body list \<Rightarrow> 'f body list" where
  "advance_by A softening2 delta_time body_count 0 bodies = bodies"
| "advance_by A softening2 delta_time body_count (Suc k) bodies =
     advance_by A softening2 delta_time body_count k
       (advance A softening2 delta_time body_count bodies)"

primrec history ::
  "('f, 'd) arith \<Rightarrow> 'f \<Rightarrow> 'f \<Rightarrow> size_t \<Rightarrow> nat \<Rightarrow> 'f body list \<Rightarrow> 'f list" where
  "history A softening2 delta_time body_count 0 bodies = []"
| "history A softening2 delta_time body_count (Suc k) bodies =
     recorded (advance A softening2 delta_time body_count bodies) @
     history A softening2 delta_time body_count k
       (advance A softening2 delta_time body_count bodies)"

fun lines_of :: "'f list \<Rightarrow> 'f line list" where
  "lines_of (a # b # rest) = Vector a b # lines_of rest"
| "lines_of rest = []"

subsection \<open>Data for the examples\<close>

text \<open>
  A C library over exact arithmetic for the concrete runs below: the parsers know the
  few strings the runs pass, \<open>rand()\<close> counts its calls, every allocation succeeds. And the
  two bodies of the end-to-end scenario, before and after one step of a hundredth.
\<close>

definition example_libc :: "real option libc" where
  "example_libc =
     \<lparr>strtof = (\<lambda>s. if s = ''0.01'' then Some (1 / 100) else if s = ''0.5'' then Some (1 / 2)
                     else if s = ''1'' then Some 1 else if s = ''2'' then Some 2 else Some 0),
      strtol = (\<lambda>s. if s = ''1'' then 1 else if s = ''2'' then 2 else if s = ''3'' then 3
                     else if s = ''4'' then 4 else 0),
      rand_seq = (\<lambda>n. int n), RAND_MAX = 2147483647, malloc_ok = (\<lambda>n. True),
      junk = Some 0\<rparr>"

definition two_bodies :: "real option body list" where
  "two_bodies =
     [\<lparr>x = Some 0, y = Some 0, ax = Some 0, ay = Some 0, vx = Some 0, vy = Some 0,
       mass = Some 1\<rparr>,
      \<lparr>x = Some 1, y = Some 0, ax = Some 0, ay = Some 0, vx = Some 0, vy = Some 0,
       mass = Some 1\<rparr>]"

definition two_bodies_after :: "real option body list" where
  "two_bodies_after =
     [\<lparr>x = Some (1 / 10000), y = Some 0, ax = Some 1, ay = Some 0,
       vx = Some (1 / 100), vy = Some 0, mass = Some 1\<rparr>,
      \<lparr>x = Some (9999 / 10000), y = Some 0, ax = Some (- 1), ay = Some 0,
       vx = Some (- (1 / 100)), vy = Some 0, mass = Some 1\<rparr>]"

text \<open>
  For binary32: a \<open>libm\<close> for the runs that call neither \<open>cosf\<close> nor \<open>sinf\<close>, a body at
  \<open>(1, 1)\<close> of mass 1 and another at the same place of mass 2, and the two bodies of the
  scenario again, before and after the step.
\<close>

definition no_libm :: "fp \<Rightarrow> fp" where
  "no_libm a = NaN"

definition machine :: "(fp, fp) arith" where
  "machine = ieee no_libm no_libm"

definition coincident :: "fp body" where
  "coincident =
     \<lparr>x = Finite False 8388608 (- 23), y = Finite False 8388608 (- 23),
      ax = Finite False 0 (- 149), ay = Finite False 0 (- 149),
      vx = Finite False 0 (- 149), vy = Finite False 0 (- 149),
      mass = Finite False 8388608 (- 23)\<rparr>"

definition coincident_twin :: "fp body" where
  "coincident_twin = coincident\<lparr>mass := Finite False 8388608 (- 22)\<rparr>"

definition fp_two_bodies :: "fp body list" where
  "fp_two_bodies =
     [\<lparr>x = Finite False 0 (- 149), y = Finite False 0 (- 149),
       ax = Finite False 0 (- 149), ay = Finite False 0 (- 149),
       vx = Finite False 0 (- 149), vy = Finite False 0 (- 149),
       mass = Finite False 8388608 (- 23)\<rparr>,
      \<lparr>x = Finite False 8388608 (- 23), y = Finite False 0 (- 149),
       ax = Finite False 0 (- 149), ay = Finite False 0 (- 149),
       vx = Finite False 0 (- 149), vy = Finite False 0 (- 149),
       mass = Finite False 8388608 (- 23)\<rparr>]"

definition fp_two_bodies_after :: "fp body list" where
  "fp_two_bodies_after =
     [\<lparr>x = Finite False 13743895 (- 37), y = Finite False 0 (- 149),
       ax = Finite False 8388608 (- 23), ay = Finite False 0 (- 149),
       vx = Finite False 10737418 (- 30), vy = Finite False 0 (- 149),
       mass = Finite False 8388608 (- 23)\<rparr>,
      \<lparr>x = Finite False 16775538 (- 24), y = Finite False 0 (- 149),
       ax = Finite True 8388608 (- 23), ay = Finite False 0 (- 149),
       vx = Finite True 10737418 (- 30), vy = Finite False 0 (- 149),
       mass = Finite False 8388608 (- 23)\<rparr>]"

text \<open>
  A C library over binary32 for the concrete runs in the arithmetic of the machine:
  \<open>strtof\<close> rounds the decimal it reads to the nearest \<open>float\<close>. And three bodies of mass 1
  on the horizontal axis: at the origin, at \<open>2\<^sup>3\<^sup>3\<close> and at \<open>2\<^sup>-\<^sup>3\<^sup>0\<close>.
\<close>

definition fp_libc :: "fp libc" where
  "fp_libc =
     \<lparr>strtof = (\<lambda>s. fp_of_rat binary32
                     (if s = ''0.01'' then 1 / 100 else if s = ''0.1'' then 1 / 10
                      else if s = ''0.5'' then 1 / 2 else if s = ''-0.5'' then - (1 / 2)
                      else if s = ''1'' then 1 else if s = ''-1'' then - 1
                      else if s = ''1.3'' then 13 / 10 else 0)),
      strtol = (\<lambda>s. if s = ''1'' then 1 else if s = ''2'' then 2 else 0),
      rand_seq = (\<lambda>n. int n), RAND_MAX = 2147483647, malloc_ok = (\<lambda>n. True),
      junk = NaN\<rparr>"





section \<open>Properties\<close>


subsection \<open>Exact arithmetic, operation by operation\<close>

lemma lift2_Some [simp]: "lift2 f (Some u) (Some v) = Some (f u v)"
  and lift2_None1 [simp]: "lift2 f None b = None"
  and lift2_None2 [simp]: "lift2 f a None = None"
  by (simp_all add: lift2_def split: option.splits)

lemma ideal_div_simps [simp]:
  "ideal_div (Some u) (Some v) = (if v = 0 then None else Some (u / v))"
  "ideal_div None b = None" "ideal_div a None = None"
  by (simp_all add: ideal_div_def split: option.splits)

lemma ideal_sqrt_simps [simp]:
  "ideal_sqrt (Some u) = (if u < 0 then None else Some (sqrt u))" "ideal_sqrt None = None"
  by (simp_all add: ideal_sqrt_def)

lemma ideal_sel [simp]:
  "flit ideal q = Some (of_rat q)" "fadd ideal = lift2 (+)" "fsub ideal = lift2 (-)"
  "fmul ideal = lift2 (*)" "fdiv ideal = ideal_div" "sqrtf ideal = ideal_sqrt"
  "size_of_float ideal = ideal_size"
  by (simp_all add: ideal_def)

lemma example_libc_sel [simp]:
  "strtof example_libc s =
     (if s = ''0.01'' then Some (1 / 100) else if s = ''0.5'' then Some (1 / 2)
      else if s = ''1'' then Some 1 else if s = ''2'' then Some 2 else Some 0)"
  "strtol example_libc s =
     (if s = ''1'' then 1 else if s = ''2'' then 2 else if s = ''3'' then 3
      else if s = ''4'' then 4 else 0)"
  "malloc_ok example_libc n" "junk example_libc = Some 0"
  by (simp_all add: example_libc_def)


subsection \<open>The arithmetic of \<open>size_t\<close>\<close>

lemma unat_of_nat64: "n < 2 ^ 64 \<Longrightarrow> unat (of_nat n :: size_t) = n"
  by (simp add: unat_of_nat)

lemma bpp_unat:
  fixes N :: size_t
  assumes "W < 2 ^ 64"
  shows "unat (N div of_nat W) = unat N div W"
  using assms by (simp add: unat_div unat_of_nat)

lemma mod_unat:
  fixes N :: size_t
  assumes "W < 2 ^ 64"
  shows "(N mod of_nat W = 0) = (unat N mod W = 0)"
proof -
  have "unat (N mod of_nat W) = unat N mod W"
    using assms by (simp add: unat_mod unat_of_nat)
  then show ?thesis by (metis unat_0_iff)
qed

lemma slice_le:
  fixes n :: nat
  assumes "rank < W"
  shows "rank * (n div W) + n div W \<le> n"
proof -
  have "Suc rank * (n div W) \<le> W * (n div W)"
    using assms by (intro mult_le_mono1) simp
  also have "\<dots> \<le> n" by simp
  finally show ?thesis by simp
qed

lemma loop_begin_unat:
  fixes N :: size_t
  assumes W: "W < 2 ^ 64" and r: "rank < W"
  shows "unat (loop_begin (N div of_nat W) rank) = rank * (unat N div W)"
proof -
  have le: "rank * (unat N div W) \<le> unat N"
    using slice_le [OF r, of "unat N"] by simp
  have "unat N < 2 ^ 64" using unsigned_less [of N] by simp
  with le have lt: "rank * (unat N div W) < 2 ^ 64" by simp
  have "unat (of_nat rank :: size_t) = rank" using W r by (simp add: unat_of_nat)
  then show ?thesis
    using lt unat_mult_lem [of "of_nat rank :: size_t" "N div of_nat W"] W
    by (simp add: loop_begin_def bpp_unat)
qed

lemma loop_end_unat:
  fixes N :: size_t
  assumes W: "W < 2 ^ 64" and r: "rank < W" and N: "N \<noteq> 0" and d: "unat N mod W = 0"
  shows "Suc (unat (loop_end N (N div of_nat W) rank)) = rank * (unat N div W) + unat N div W"
proof -
  define b where "b = unat N div W"
  define e0 where "e0 = loop_begin (N div of_nat W) rank + N div of_nat W"
  have N0: "0 < unat N" using N by (simp add: unat_gt_0)
  have Nb: "unat N = W * b" using d unfolding b_def by (metis mult_div_mod_eq add.right_neutral)
  with N0 have b0: "0 < b" by (cases b) simp_all
  have le: "rank * b + b \<le> unat N" using slice_le [OF r, of "unat N"] by (simp add: b_def)
  have "unat N < 2 ^ 64" using unsigned_less [of N] by simp
  with le have lt: "rank * b + b < 2 ^ 64" by simp
  have ub: "unat (loop_begin (N div of_nat W) rank) = rank * b"
    using loop_begin_unat [OF W r, of N] by (simp add: b_def)
  have up: "unat (N div of_nat W) = b" using W by (simp add: bpp_unat b_def)
  have ue0: "unat e0 = rank * b + b"
    using lt unat_add_lem [of "loop_begin (N div of_nat W) rank" "N div of_nat W"]
    by (simp add: ub up e0_def)
  then have "e0 \<noteq> 0" using b0 by (metis add_is_0 less_numeral_extra(3) unat_0)
  then have ue: "unat (e0 - 1) = rank * b + b - 1" using ue0 by (simp add: unat_minus_one)
  then have "\<not> N \<le> e0 - 1" using le b0 by (simp add: word_le_nat_alt)
  then have "loop_end N (N div of_nat W) rank = e0 - 1"
    by (simp add: loop_end_def e0_def Let_def)
  then show ?thesis using ue b0 by (simp add: b_def)
qed

lemma loop_end_zero: "loop_end 0 0 rank = - 1"
  by (simp add: loop_end_def loop_begin_def)

lemma unat_minus1_64: "unat (- 1 :: size_t) = 18446744073709551615"
  by (simp add: unsigned_minus_1_eq_mask mask_eq_exp_minus_1)

subsection \<open>The loops of one iteration\<close>

lemma accumulate_foldl:
  "list_all (\<lambda>j. j < length bodies) js \<Longrightarrow>
   accumulate A e bodies i js totals = Some (foldl (add_contribution A e bodies i) totals js)"
proof (induction js arbitrary: totals)
  case Nil
  then show ?case by simp
next
  case (Cons j js)
  have "accumulate A e bodies i (j # js) totals =
      accumulate A e bodies i js (add_contribution A e bodies i totals j)"
    using Cons.prems by (cases totals) (simp add: add_contribution_def split_beta)
  then show ?case using Cons by simp
qed

lemma list_all_upt: "n \<le> m \<Longrightarrow> list_all (\<lambda>j. j < m) [k..<n]"
  by (simp add: list_all_iff)

lemma upt_two: "[0..<2] = [0, Suc 0]"
  by (simp add: numeral_2_eq_2)

lemma accumulate_total:
  "unat N \<le> length bodies \<Longrightarrow>
   accumulate A e bodies i [0..<unat N] (flit A 0, flit A 0) = Some (total_acceleration A e N bodies i)"
  by (simp add: accumulate_foldl list_all_upt total_acceleration_def)

lemma compute_loop_result:
  "list_all (\<lambda>i. i < length bodies) is \<Longrightarrow> unat N \<le> length bodies \<Longrightarrow>
   s + length is \<le> length sub \<Longrightarrow>
   compute_loop A e N bodies is s sub =
     Some (take s sub @ map (accelerated A e N bodies) is @ drop (s + length is) sub)"
proof (induction "is" arbitrary: s sub)
  case Nil
  then show ?case by simp
next
  case (Cons i "is")
  let ?v = "accelerated A e N bodies i"
  have s: "s < length sub" using Cons.prems by simp
  have step: "compute_loop A e N bodies (i # is) s sub =
      compute_loop A e N bodies is (Suc s) (sub[s := ?v])"
    using Cons.prems s
    by (simp add: accumulate_total accelerated_def split_beta)
  have "compute_loop A e N bodies is (Suc s) (sub[s := ?v]) =
      Some (take (Suc s) (sub[s := ?v]) @ map (accelerated A e N bodies) is @
            drop (Suc s + length is) (sub[s := ?v]))"
    using Cons.prems by (intro Cons.IH) simp_all
  also have "take (Suc s) (sub[s := ?v]) = take s sub @ [?v]"
    using s by (simp add: take_Suc_conv_app_nth)
  also have "drop (Suc s + length is) (sub[s := ?v]) = drop (s + length (i # is)) sub"
    by simp
  finally show ?case using step by simp
qed

lemma length_recorded [simp]: "length (recorded bs) = 2 * length bs"
  by (induction bs) (simp_all add: recorded_def)

lemma recorded_Nil [simp]: "recorded [] = []"
  by (simp add: recorded_def)

lemma recorded_Cons: "recorded (b # bs) = ax b # ay b # recorded bs"
  by (simp add: recorded_def)

lemma compute_phase_result:
  fixes N :: size_t
  assumes W: "W < 2 ^ 64" and r: "rank < W" and N: "N \<noteq> 0" and d: "unat N mod W = 0"
    and bodies: "unat N \<le> length bodies" and sub: "length sub = unat N div W"
  shows "compute_phase A e N (N div of_nat W) rank bodies sub =
     Some (map (accelerated A e N bodies)
             [rank * (unat N div W) ..< rank * (unat N div W) + unat N div W])"
proof -
  let ?b = "unat N div W"
  have le: "rank * ?b + ?b \<le> unat N" using slice_le [OF r] by simp
  have all: "list_all (\<lambda>i. i < length bodies) [rank * ?b ..< rank * ?b + ?b]"
    using le bodies by (intro list_all_upt) simp
  show ?thesis
    unfolding compute_phase_def loop_begin_unat [OF W r] loop_end_unat [OF W r N d]
    using compute_loop_result [OF all bodies, of 0 sub A e] sub
    by simp
qed

lemma compute_all_result:
  fixes N :: size_t
  assumes W: "W < 2 ^ 64" and N: "N \<noteq> 0" and d: "unat N mod W = 0"
    and bodies: "unat N \<le> length bodies"
  shows "list_all (\<lambda>s. length s = unat N div W) subs \<Longrightarrow> rank + length subs \<le> W \<Longrightarrow>
    compute_all A e N (N div of_nat W) bodies rank subs =
     Some (map (\<lambda>r. map (accelerated A e N bodies)
                      [r * (unat N div W) ..< r * (unat N div W) + unat N div W])
             [rank ..< rank + length subs])"
proof (induction subs arbitrary: rank)
  case Nil
  then show ?case by simp
next
  case (Cons s subs)
  have r: "rank < W" using Cons.prems by simp
  have len: "length s = unat N div W" using Cons.prems by simp
  have "compute_all A e N (N div of_nat W) bodies (Suc rank) subs =
     Some (map (\<lambda>r. map (accelerated A e N bodies)
                      [r * (unat N div W) ..< r * (unat N div W) + unat N div W])
             [Suc rank ..< Suc rank + length subs])"
    using Cons.prems by (intro Cons.IH) simp_all
  moreover have "[rank..<rank + length (s # subs)] = rank # [Suc rank..<Suc rank + length subs]"
    using upt_conv_Cons [of rank "rank + length (s # subs)"] by (simp del: upt_Suc)
  ultimately show ?case
    using compute_phase_result [OF W r N d bodies len, of A e]
    by (simp del: upt_Suc)
qed

lemma concat_slices:
  "concat (map (\<lambda>r. map f [r * b ..< r * b + b]) [0..<W]) = map f [0..<W * b]"
proof (induction W)
  case 0
  then show ?case by simp
next
  case (Suc W)
  have "[0..<W * b + b] = [0..<W * b] @ [W * b..<W * b + b]"
    using upt_add_eq_append [of 0 "W * b" b] by simp
  then show ?case using Suc by (simp add: add.commute)
qed

lemma write_pair:
  "Suc n < length xs \<Longrightarrow> take (n + 2) (xs[n := a, Suc n := b]) = take n xs @ [a, b]"
  by (simp add: take_Suc_conv_app_nth numeral_2_eq_2)

lemma integrate_loop_result:
  "k + m \<le> length bodies \<Longrightarrow> n + 2 * m \<le> length accs \<Longrightarrow>
   integrate_loop A dt [k..<k + m] (bodies, accs, n) =
     Some (take k bodies @ map (\<lambda>b. integrate A b dt) (take m (drop k bodies)) @
             drop (k + m) bodies,
           take n accs @ recorded (map (\<lambda>b. integrate A b dt) (take m (drop k bodies))) @
             drop (n + 2 * m) accs,
           n + 2 * m)"
proof (induction m arbitrary: k bodies accs n)
  case 0
  then show ?case by simp
next
  case (Suc m)
  let ?v = "integrate A (bodies ! k) dt"
  let ?bodies = "bodies[k := ?v]"
  let ?accs = "accs[n := ax ?v, Suc n := ay ?v]"
  have k: "k < length bodies" and n: "Suc n < length accs" using Suc.prems by simp_all
  have step: "integrate_loop A dt [k..<k + Suc m] (bodies, accs, n) =
      integrate_loop A dt [Suc k..<Suc k + m] (?bodies, ?accs, n + 2)"
  proof -
    have "[k..<k + Suc m] = k # [Suc k..<Suc k + m]"
      using upt_conv_Cons [of k "k + Suc m"] by (simp del: upt_Suc)
    then show ?thesis using k n by (simp add: Let_def del: upt_Suc)
  qed
  have ih: "integrate_loop A dt [Suc k..<Suc k + m] (?bodies, ?accs, n + 2) =
     Some (take (Suc k) ?bodies @ map (\<lambda>b. integrate A b dt) (take m (drop (Suc k) ?bodies)) @
             drop (Suc k + m) ?bodies,
           take (n + 2) ?accs @
             recorded (map (\<lambda>b. integrate A b dt) (take m (drop (Suc k) ?bodies))) @
             drop (n + 2 + 2 * m) ?accs,
           n + 2 + 2 * m)"
    using Suc.prems by (intro Suc.IH) simp_all
  have t: "take (Suc m) (drop k bodies) = bodies ! k # take m (drop (Suc k) bodies)"
    using k by (simp flip: Cons_nth_drop_Suc)
  have b1: "take (Suc k) ?bodies = take k bodies @ [?v]"
    using k by (simp add: take_Suc_conv_app_nth)
  show ?case
    unfolding step ih t b1 write_pair [OF n]
    by (simp add: recorded_Cons)
qed

lemma length_advance [simp]: "length (advance A e dt N bodies) = unat N"
  by (simp add: advance_def)

lemma length_slices [simp]: "length (slices A e N W bodies) = W"
  by (simp add: slices_def)

lemma slices_all: "list_all (\<lambda>s. length s = unat N div W) (slices A e N W bodies)"
  by (simp add: slices_def list_all_iff)

lemma gather_slices:
  fixes N :: size_t
  assumes W: "W < 2 ^ 64" and d: "unat N mod W = 0" and small: "unat N < 2 ^ 31"
    and bodies: "length bodies = unat N"
  shows "MPI_Gather (slices A e N W bodies) (N div of_nat W) bodies =
     Some (map (accelerated A e N bodies) [0..<unat N])"
proof -
  let ?b = "unat N div W"
  have b: "unat (N div of_nat W) = ?b" using W by (simp add: bpp_unat)
  have Nb: "W * ?b = unat N" using d by (metis mult_div_mod_eq add.right_neutral)
  have "?b \<le> unat N" by (rule div_le_dividend)
  then have b31: "?b < 2 ^ 31" using small by (rule le_less_trans)
  have all: "list_all (\<lambda>s. ?b \<le> length s) (slices A e N W bodies)"
    by (simp add: slices_def list_all_iff)
  have take: "map (take ?b) (slices A e N W bodies) = slices A e N W bodies"
    by (simp add: slices_def)
  have "concat (slices A e N W bodies) = map (accelerated A e N bodies) [0..<W * ?b]"
    unfolding slices_def by (rule concat_slices)
  then show ?thesis
    using all b31 bodies Nb by (simp add: MPI_Gather_def b take)
qed

lemma iteration_result:
  fixes N :: size_t
  assumes W: "W < 2 ^ 64" and N: "N \<noteq> 0" and d: "unat N mod W = 0"
    and small: "unat N < 2 ^ 31"
    and bodies: "length bodies = unat N"
    and subs: "length subs = W" "list_all (\<lambda>s. length s = unat N div W) subs"
    and accs: "n + 2 * unat N \<le> length accs"
  shows "iteration A e dt N (N div of_nat W) (bodies, subs, accs, n) =
     Some (advance A e dt N bodies, slices A e N W bodies,
           take n accs @ recorded (advance A e dt N bodies) @ drop (n + 2 * unat N) accs,
           n + 2 * unat N)"
proof -
  have bc: "MPI_Bcast bodies N = Some bodies"
    using small bodies by (simp add: MPI_Bcast_def)
  have le: "unat N \<le> length bodies" using bodies by simp
  have ca: "compute_all A e N (N div of_nat W) bodies 0 subs = Some (slices A e N W bodies)"
    using compute_all_result [OF W N d le subs(2), of 0 A e] subs(1)
    by (simp add: slices_def)
  let ?g = "map (accelerated A e N bodies) [0..<unat N]"
  have il: "integrate_loop A dt [0..<unat N] (?g, accs, n) =
     Some (advance A e dt N bodies,
           take n accs @ recorded (advance A e dt N bodies) @ drop (n + 2 * unat N) accs,
           n + 2 * unat N)"
    using integrate_loop_result [of 0 "unat N" ?g n accs A dt] accs
    by (simp add: advance_def comp_def)
  show ?thesis
    by (simp add: iteration_def bc ca gather_slices [OF W d small bodies] il)
qed

subsection \<open>The loop over the iterations\<close>

lemma length_history [simp]: "length (history A e dt N k bodies) = 2 * k * unat N"
  by (induction k arbitrary: bodies) (simp_all add: algebra_simps)

lemma splice_take:
  "n + length r \<le> length xs \<Longrightarrow>
   take (n + length r) (take n xs @ r @ drop (n + length r) xs) = take n xs @ r"
  by simp

lemma splice_drop:
  "n + length r \<le> length xs \<Longrightarrow>
   drop (n + length r + m) (take n xs @ r @ drop (n + length r) xs) = drop (n + length r + m) xs"
  by (simp add: add.commute)

lemma simulation_loop_result:
  fixes N :: size_t
  assumes W: "W < 2 ^ 64" and N: "N \<noteq> 0" and d: "unat N mod W = 0"
    and small: "unat N < 2 ^ 31"
  shows "length bodies = unat N \<Longrightarrow> length subs = W \<Longrightarrow>
    list_all (\<lambda>s. length s = unat N div W) subs \<Longrightarrow>
    n + 2 * length ks * unat N \<le> length accs \<Longrightarrow>
    \<exists>subs'. simulation_loop A e dt N (N div of_nat W) ks (bodies, subs, accs, n) =
      Some (advance_by A e dt N (length ks) bodies, subs',
            take n accs @ history A e dt N (length ks) bodies @
              drop (n + 2 * length ks * unat N) accs,
            n + 2 * length ks * unat N)"
proof (induction ks arbitrary: bodies subs accs n)
  case Nil
  then show ?case by simp
next
  case (Cons k ks)
  let ?r = "recorded (advance A e dt N bodies)"
  let ?accs = "take n accs @ ?r @ drop (n + 2 * unat N) accs"
  have lr: "length ?r = 2 * unat N" by simp
  have fits: "n + length ?r \<le> length accs" using Cons.prems(4) by simp
  have it: "iteration A e dt N (N div of_nat W) (bodies, subs, accs, n) =
      Some (advance A e dt N bodies, slices A e N W bodies, ?accs, n + 2 * unat N)"
    using Cons.prems by (intro iteration_result [OF W N d small]) simp_all
  have la: "length ?accs = length accs" using fits by simp
  have p1: "length (advance A e dt N bodies) = unat N" by simp
  have p2: "length (slices A e N W bodies) = W" by simp
  have p4: "n + 2 * unat N + 2 * length ks * unat N \<le> length ?accs"
    using Cons.prems(4) unfolding la by (simp add: algebra_simps)
  obtain subs' where ih:
    "simulation_loop A e dt N (N div of_nat W) ks
       (advance A e dt N bodies, slices A e N W bodies, ?accs, n + 2 * unat N) =
     Some (advance_by A e dt N (length ks) (advance A e dt N bodies), subs',
           take (n + 2 * unat N) ?accs @ history A e dt N (length ks) (advance A e dt N bodies) @
             drop (n + 2 * unat N + 2 * length ks * unat N) ?accs,
           n + 2 * unat N + 2 * length ks * unat N)"
    using Cons.IH [OF p1 p2 slices_all p4] by blast
  have t: "take (n + 2 * unat N) ?accs = take n accs @ ?r"
    using splice_take [OF fits] by (simp only: lr)
  have dr: "drop (n + 2 * unat N + 2 * length ks * unat N) ?accs =
      drop (n + 2 * length (k # ks) * unat N) accs"
    using splice_drop [OF fits, of "2 * length ks * unat N"]
    by (simp only: lr) (simp add: algebra_simps)
  have e1: "simulation_loop A e dt N (N div of_nat W) (k # ks) (bodies, subs, accs, n) =
      simulation_loop A e dt N (N div of_nat W) ks
        (advance A e dt N bodies, slices A e N W bodies, ?accs, n + 2 * unat N)"
    by (simp add: it)
  have e2: "simulation_loop A e dt N (N div of_nat W) ks
        (advance A e dt N bodies, slices A e N W bodies, ?accs, n + 2 * unat N) =
      Some (advance_by A e dt N (length (k # ks)) bodies, subs',
            take n accs @ history A e dt N (length (k # ks)) bodies @
              drop (n + 2 * length (k # ks) * unat N) accs,
            n + 2 * length (k # ks) * unat N)"
    unfolding ih t dr by (simp add: algebra_simps)
  show ?case unfolding e1 e2 by blast
qed

subsection \<open>Allocation, printing and the generator\<close>

lemma length_lines_of [simp]: "length (lines_of xs) = length xs div 2"
  by (induction xs rule: lines_of.induct) simp_all

lemma lines_of_append:
  "even (length xs) \<Longrightarrow> lines_of (xs @ ys) = lines_of xs @ lines_of ys"
  by (induction xs rule: lines_of.induct) simp_all

lemma malloc_count:
  assumes "malloc_ok E (of_nat s * n)" "s * unat n < 2 ^ 64" "0 < s"
  shows "malloc E s n = Some (unat n)"
proof -
  have s: "s < 2 ^ 64 \<or> unat n = 0"
  proof (cases "unat n")
    case 0
    then show ?thesis by simp
  next
    case (Suc k)
    then have "s + s * k < 2 ^ 64" using assms(2) by simp
    then show ?thesis by linarith
  qed
  have "unat (of_nat s * n :: size_t) = s * unat n"
  proof (cases "unat n = 0")
    case True
    then show ?thesis by (simp add: unat_0_iff)
  next
    case False
    then have "unat (of_nat s :: size_t) = s" using s by (simp add: unat_of_nat)
    then show ?thesis
      using assms(2) unat_mult_lem [of "of_nat s :: size_t" n] by simp
  qed
  then show ?thesis using assms by (simp add: malloc_def)
qed

lemma print_accelerations_result:
  "list_all (\<lambda>k. Suc (2 * k) < length accs) ks \<Longrightarrow>
   print_accelerations accs (map (\<lambda>k. 2 * k) ks) =
     (map (\<lambda>k. Vector (accs ! (2 * k)) (accs ! Suc (2 * k))) ks, True)"
  by (induction ks) simp_all

lemma lines_of_nth:
  "length xs = 2 * m \<Longrightarrow>
   map (\<lambda>k. Vector (xs ! (2 * k)) (xs ! Suc (2 * k))) [0..<m] = lines_of xs"
proof (induction xs arbitrary: m rule: lines_of.induct)
  case (1 a b rest)
  then obtain m' where m: "m = Suc m'" by (cases m) simp_all
  with 1 have "map (\<lambda>k. Vector (rest ! (2 * k)) (rest ! Suc (2 * k))) [0..<m'] = lines_of rest"
    by simp
  moreover have "[0..<Suc m'] = 0 # map Suc [0..<m']"
    by (simp add: upt_conv_Cons map_Suc_upt del: upt_Suc)
  ultimately show ?case unfolding m by (simp add: comp_def del: upt_Suc)
qed simp_all

lemma print_all:
  "length accs = 2 * m \<Longrightarrow>
   print_accelerations accs (map (\<lambda>k. 2 * k) [0..<m]) = (lines_of accs, True)"
  using print_accelerations_result [of accs "[0..<m]"] lines_of_nth [of accs m]
  by (simp add: list_all_iff)

lemma generate_loop_ok:
  "list_all (\<lambda>i. i < length bodies) is \<Longrightarrow>
   \<exists>G. generate_debug_data_loop A E m0 scale N is (bodies, n) = Some (G, n + 5 * length is) \<and>
       length G = length bodies"
proof (induction "is" arbitrary: bodies n)
  case Nil
  then show ?case by simp
next
  case (Cons i "is")
  have "\<exists>b. generate_debug_data_loop A E m0 scale N (i # is) (bodies, n) =
      generate_debug_data_loop A E m0 scale N is
        (bodies[i := b], Suc (Suc (Suc (Suc (Suc n)))))"
    using Cons.prems by (simp add: unit_random_def Let_def split_beta) blast
  then obtain b where step: "generate_debug_data_loop A E m0 scale N (i # is) (bodies, n) =
      generate_debug_data_loop A E m0 scale N is
        (bodies[i := b], Suc (Suc (Suc (Suc (Suc n)))))" ..
  have "list_all (\<lambda>j. j < length (bodies[i := b])) is" using Cons.prems by simp
  moreover have "Suc (Suc (Suc (Suc (Suc n)))) + 5 * length is = n + 5 * length (i # is)"
    by simp
  ultimately show ?case
    using Cons.IH [of "bodies[i := b]" "Suc (Suc (Suc (Suc (Suc n))))"]
    unfolding step by (simp only: length_list_update)
qed

lemma generate_ok:
  "unat N \<le> length bodies \<Longrightarrow>
   \<exists>G n. generate_debug_data A E m0 scale bodies N = Some (G, n) \<and> length G = length bodies"
  using generate_loop_ok [of bodies "[0..<unat N]" A E m0 scale N 0]
  by (auto simp: generate_debug_data_def list_all_iff)

subsection \<open>The program from its first line to its last\<close>

lemma unat_entries:
  fixes its N :: size_t
  assumes "8 * unat its * unat N < 2 ^ 64"
  shows "unat (its * N * 2) = 2 * unat its * unat N"
proof -
  define p where "p = unat its * unat N"
  have p8: "8 * p < 2 ^ 64" using assms by (simp add: p_def mult.assoc)
  then have a: "p < 2 ^ 64" by linarith
  then have b: "unat (its * N) = p" using unat_mult_lem [of its N] by (simp add: p_def)
  have "p * 2 < 2 ^ 64" using p8 by linarith
  then have "unat (its * N * 2) = p * 2"
    using unat_mult_lem [of "its * N" 2] b by simp
  then show ?thesis by (simp add: p_def)
qed

lemma entries_bytes:
  fixes its N :: size_t
  assumes "8 * unat its * unat N < 2 ^ 64"
  shows "4 * unat (its * N * 2) < 2 ^ 64"
proof -
  define p where "p = unat its * unat N"
  have p8: "8 * p < 2 ^ 64" using assms by (simp add: p_def mult.assoc)
  have "unat (its * N * 2) = 2 * p" using unat_entries [OF assms] by (simp add: p_def)
  then show ?thesis using p8 by simp
qed

lemma slice_bytes:
  fixes N :: size_t
  assumes "28 * unat N < 2 ^ 64" "W < 2 ^ 64"
  shows "28 * unat (N div of_nat W) < 2 ^ 64"
proof -
  have "unat N div W \<le> unat N" by (rule div_le_dividend)
  then have "28 * (unat N div W) \<le> 28 * unat N" by (rule mult_le_mono2)
  then show ?thesis using assms by (simp only: bpp_unat [OF assms(2)])
qed

lemma startup_ready:
  fixes N its :: size_t
  assumes argv: "6 \<le> length argv"
    and W: "W < 2 ^ 64"
    and N: "N = word_of_int (strtol E (argv ! 3))"
    and mem: "\<forall>n. malloc_ok E n"
    and its: "size_of_float A (fdiv A (strtof E (argv ! 1)) (strtof E (argv ! 2))) = Some its"
    and d: "unat N mod W = 0"
    and big: "28 * unat N < 2 ^ 64"
    and ents: "8 * unat its * unat N < 2 ^ 64"
  shows "\<exists>G n.
    generate_debug_data A E (strtof E (argv ! 4))
      (if 6 < length argv then strtof E (argv ! 6) else flit A 100)
      (replicate (unat N) (junk_body E)) N = Some (G, n) \<and>
    length G = unat N \<and>
    startup A E W 0 argv =
      Ready (print_snapshot N (strtof E (argv ! 1)) (strtof E (argv ! 2)) G)
        \<lparr>p_delta_time = strtof E (argv ! 2), p_body_count = N,
         p_softening2 = fmul A (strtof E (argv ! 5)) (strtof E (argv ! 5)),
         p_iterations = its, p_acceleration_entries = its * N * 2,
         p_bodies = G, p_accelerations = replicate (2 * unat its * unat N) (junk E),
         p_bodies_per_process = N div of_nat W,
         p_sub_bodies = replicate (unat N div W) (junk_body E)\<rparr>"
proof -
  have m0: "N mod of_nat W = 0" using d W by (simp add: mod_unat)
  have m1: "malloc E 28 N = Some (unat N)"
    using mem big by (intro malloc_count) simp_all
  have m2: "malloc E 4 (its * N * 2) = Some (2 * unat its * unat N)"
    using mem malloc_count [of E 4 "its * N * 2"] entries_bytes [OF ents]
    by (simp add: unat_entries [OF ents])
  have m3: "malloc E 28 (N div of_nat W) = Some (unat N div W)"
    using mem malloc_count [of E 28 "N div of_nat W"] slice_bytes [OF big W]
    by (simp add: bpp_unat [OF W])
  obtain G n where G: "generate_debug_data A E (strtof E (argv ! 4))
      (if 6 < length argv then strtof E (argv ! 6) else flit A 100)
      (replicate (unat N) (junk_body E)) N = Some (G, n)" "length G = unat N"
    using generate_ok [of N "replicate (unat N) (junk_body E)" A E "strtof E (argv ! 4)"
        "if 6 < length argv then strtof E (argv ! 6) else flit A 100"]
    by (simp only: length_replicate) blast
  have "startup A E W 0 argv =
      Ready (print_snapshot N (strtof E (argv ! 1)) (strtof E (argv ! 2)) G)
        \<lparr>p_delta_time = strtof E (argv ! 2), p_body_count = N,
         p_softening2 = fmul A (strtof E (argv ! 5)) (strtof E (argv ! 5)),
         p_iterations = its, p_acceleration_entries = its * N * 2,
         p_bodies = G, p_accelerations = replicate (2 * unat its * unat N) (junk E),
         p_bodies_per_process = N div of_nat W,
         p_sub_bodies = replicate (unat N div W) (junk_body E)\<rparr>"
    using argv G(1) its
    by (simp add: startup_def Let_def N [symmetric] m0 m1 m2 m3 coordinator_setup_def)
  with G show ?thesis by blast
qed

lemma main_run:
  fixes N its :: size_t
  assumes argv: "6 \<le> length argv"
    and W: "W < 2 ^ 64"
    and N: "N = word_of_int (strtol E (argv ! 3))"
    and mem: "\<forall>n. malloc_ok E n"
    and its: "size_of_float A (fdiv A (strtof E (argv ! 1)) (strtof E (argv ! 2))) = Some its"
    and d: "unat N mod W = 0"
    and big: "28 * unat N < 2 ^ 64"
    and ents: "8 * unat its * unat N < 2 ^ 64"
    and runs: "its = 0 \<or> N \<noteq> 0 \<and> unat N < 2 ^ 31"
  shows "\<exists>G n.
    generate_debug_data A E (strtof E (argv ! 4))
      (if 6 < length argv then strtof E (argv ! 6) else flit A 100)
      (replicate (unat N) (junk_body E)) N = Some (G, n) \<and>
    length G = unat N \<and>
    main A E W argv =
      \<lparr>stdout = print_snapshot N (strtof E (argv ! 1)) (strtof E (argv ! 2)) G @
         lines_of (history A (fmul A (strtof E (argv ! 5)) (strtof E (argv ! 5)))
                    (strtof E (argv ! 2)) N (unat its) G),
       stderr = [], status = Returned 0\<rparr>"
proof -
  let ?e = "fmul A (strtof E (argv ! 5)) (strtof E (argv ! 5))"
  let ?dt = "strtof E (argv ! 2)"
  let ?m = "unat its * unat N"
  let ?accs = "replicate (2 * unat its * unat N) (junk E)"
  let ?subs = "replicate W (replicate (unat N div W) (junk_body E))"
  obtain G n where G: "generate_debug_data A E (strtof E (argv ! 4))
      (if 6 < length argv then strtof E (argv ! 6) else flit A 100)
      (replicate (unat N) (junk_body E)) N = Some (G, n)" "length G = unat N"
    and st: "startup A E W 0 argv =
      Ready (print_snapshot N (strtof E (argv ! 1)) ?dt G)
        \<lparr>p_delta_time = ?dt, p_body_count = N, p_softening2 = ?e,
         p_iterations = its, p_acceleration_entries = its * N * 2,
         p_bodies = G, p_accelerations = ?accs,
         p_bodies_per_process = N div of_nat W,
         p_sub_bodies = replicate (unat N div W) (junk_body E)\<rparr>"
    using startup_ready [OF argv W N mem its d big ents] by blast
  have "\<exists>subs'. simulation_loop A ?e ?dt N (N div of_nat W) [0..<unat its] (G, ?subs, ?accs, 0) =
      Some (advance_by A ?e ?dt N (unat its) G, subs', history A ?e ?dt N (unat its) G,
            2 * unat its * unat N)"
  proof (cases "its = 0")
    case True
    then show ?thesis by simp
  next
    case False
    with runs have N0: "N \<noteq> 0" and small: "unat N < 2 ^ 31" by simp_all
    have "\<exists>subs'. simulation_loop A ?e ?dt N (N div of_nat W) [0..<unat its] (G, ?subs, ?accs, 0) =
      Some (advance_by A ?e ?dt N (length [0..<unat its]) G, subs',
            take 0 ?accs @ history A ?e ?dt N (length [0..<unat its]) G @
              drop (0 + 2 * length [0..<unat its] * unat N) ?accs,
            0 + 2 * length [0..<unat its] * unat N)"
      using G(2) by (intro simulation_loop_result [OF W N0 d small]) (simp_all add: list_all_iff)
    then show ?thesis by simp
  qed
  then obtain subs' where
    sl: "simulation_loop A ?e ?dt N (N div of_nat W) [0..<unat its] (G, ?subs, ?accs, 0) =
      Some (advance_by A ?e ?dt N (unat its) G, subs', history A ?e ?dt N (unat its) G,
            2 * unat its * unat N)" ..
  have ix: "Suc (unat (its * N * 2)) div 2 = ?m"
    by (simp add: unat_entries [OF ents])
  have pr: "print_accelerations (history A ?e ?dt N (unat its) G) (map ((*) 2) [0..<?m]) =
      (lines_of (history A ?e ?dt N (unat its) G), True)"
    using print_all [of "history A ?e ?dt N (unat its) G" ?m] by simp
  have "main A E W argv =
      \<lparr>stdout = print_snapshot N (strtof E (argv ! 1)) ?dt G @
         lines_of (history A ?e ?dt N (unat its) G),
       stderr = [], status = Returned 0\<rparr>"
    unfolding main_def st by (simp add: sl ix pr del: upt_Suc)
  with G show ?thesis by blast
qed

lemma partition_ranges:
  fixes N :: size_t
  assumes W: "0 < W" "W < 2 ^ 64" and N: "N \<noteq> 0" and d: "N mod of_nat W = 0"
  shows "(\<forall>rank < W.
            [unat (loop_begin (N div of_nat W) rank) ..<
             Suc (unat (loop_end N (N div of_nat W) rank))] =
            [rank * (unat N div W) ..< (rank + 1) * (unat N div W)]) \<and>
         concat (map (\<lambda>rank. [unat (loop_begin (N div of_nat W) rank) ..<
                               Suc (unat (loop_end N (N div of_nat W) rank))]) [0..<W]) =
           [0..<unat N]"
proof -
  let ?b = "unat N div W"
  have d': "unat N mod W = 0" using d W by (simp add: mod_unat)
  have Nb: "W * ?b = unat N" using d' by (metis mult_div_mod_eq add.right_neutral)
  have r: "[unat (loop_begin (N div of_nat W) rank) ..<
             Suc (unat (loop_end N (N div of_nat W) rank))] =
            [rank * ?b ..< rank * ?b + ?b]" if "rank < W" for rank
    using loop_begin_unat [OF W(2) that, of N] loop_end_unat [OF W(2) that N d'] by simp
  have "map (\<lambda>rank. [unat (loop_begin (N div of_nat W) rank) ..<
                               Suc (unat (loop_end N (N div of_nat W) rank))]) [0..<W] =
        map (\<lambda>rank. map id [rank * ?b ..< rank * ?b + ?b]) [0..<W]"
    using r by simp
  then have "concat (map (\<lambda>rank. [unat (loop_begin (N div of_nat W) rank) ..<
                               Suc (unat (loop_end N (N div of_nat W) rank))]) [0..<W]) =
       map id [0..<W * ?b]"
    by (simp only: concat_slices)
  then show ?thesis using r Nb by (simp add: algebra_simps)
qed

lemma padded_count:
  fixes N :: size_t
  assumes W0: "0 < W" and W: "W < 2 ^ 64" and nd: "unat N mod W \<noteq> 0"
    and big: "unat N + W < 2 ^ 64"
  shows "unat (N + (of_nat W - N mod of_nat W)) = unat N + (W - unat N mod W)"
proof -
  let ?ws = "of_nat W :: size_t"
  have uw: "unat ?ws = W" using W by (simp add: unat_of_nat)
  have um: "unat (N mod ?ws) = unat N mod W" by (simp add: unat_mod uw)
  have "unat N mod W < W" using W0 by simp
  then have le: "N mod ?ws \<le> ?ws" by (simp add: word_le_nat_alt um uw)
  have us: "unat (?ws - N mod ?ws) = W - unat N mod W"
    using unat_sub [OF le] by (simp add: um uw)
  have "unat N + unat (?ws - N mod ?ws) < 2 ^ 64" using big unfolding us by simp
  then show ?thesis
    using unat_add_lem [of N "?ws - N mod ?ws"] by (simp add: us)
qed

lemma startup_stopped:
  fixes N its :: size_t
  assumes argv: "6 \<le> length argv"
    and W0: "0 < W" and W: "W < 2 ^ 64"
    and N: "N = word_of_int (strtol E (argv ! 3))"
    and mem: "\<forall>n. malloc_ok E n"
    and its: "size_of_float A (fdiv A (strtof E (argv ! 1)) (strtof E (argv ! 2))) = Some its"
    and nd: "unat N mod W \<noteq> 0"
    and big: "28 * (unat N + W) < 2 ^ 64"
  shows "\<exists>G n.
    generate_debug_data A E (strtof E (argv ! 4))
      (if 6 < length argv then strtof E (argv ! 6) else flit A 100)
      (replicate (unat N + (W - unat N mod W)) (junk_body E)) N = Some (G, n) \<and>
    startup A E W rank argv =
      Stopped \<lparr>stdout = (if rank = 0
                          then print_snapshot N (strtof E (argv ! 1)) (strtof E (argv ! 2)) G
                          else []),
               stderr = [], status = Aborted Count_Divisible\<rparr>"
proof -
  let ?cap = "unat N + (W - unat N mod W)"
  let ?mpi = "N + (of_nat W - N mod of_nat W)"
  have m0: "N mod of_nat W \<noteq> 0" using nd W by (simp add: mod_unat)
  have b64: "unat N + W < 2 ^ 64" using big by simp
  have cap: "unat ?mpi = ?cap" by (rule padded_count [OF W0 W nd b64])
  have "28 * ?cap < 2 ^ 64" using big by simp
  then have m1: "malloc E 28 ?mpi = Some ?cap"
    using mem malloc_count [of E 28 ?mpi] by (simp add: cap)
  have "\<exists>c. malloc E 4 (its * N * 2) = Some c" using mem by (simp add: malloc_def)
  then obtain c where m2: "malloc E 4 (its * N * 2) = Some c" ..
  obtain G n where G: "generate_debug_data A E (strtof E (argv ! 4))
      (if 6 < length argv then strtof E (argv ! 6) else flit A 100)
      (replicate ?cap (junk_body E)) N = Some (G, n)"
    using generate_ok [of N "replicate ?cap (junk_body E)" A E "strtof E (argv ! 4)"
        "if 6 < length argv then strtof E (argv ! 6) else flit A 100"]
    by (simp only: length_replicate) (meson le_add1)
  have "startup A E W rank argv =
      Stopped \<lparr>stdout = (if rank = 0
                          then print_snapshot N (strtof E (argv ! 1)) (strtof E (argv ! 2)) G
                          else []),
               stderr = [], status = Aborted Count_Divisible\<rparr>"
    using argv G its
    by (simp add: startup_def Let_def N [symmetric] m0 m1 m2 coordinator_setup_def)
  with G show ?thesis by blast
qed

lemma length_print_snapshot [simp]:
  "length (print_snapshot N tp dt G) = 3 + 4 * unat N"
proof -
  have "length (concat (map (\<lambda>i. print_body (G ! i)) [0..<n])) = 4 * n" for n
    by (induction n) (simp_all add: print_body_def)
  then show ?thesis by (simp add: print_snapshot_def)
qed

lemma take_print_snapshot [simp]:
  "take 3 (print_snapshot N tp dt G) = [Count N, Scalar tp, Scalar dt]"
  by (simp add: print_snapshot_def)

lemma partition_invariance:
  fixes N its :: size_t
  assumes argv: "6 \<le> length argv"
    and N: "N = word_of_int (strtol E (argv ! 3))"
    and mem: "\<forall>n. malloc_ok E n"
    and its: "size_of_float A (fdiv A (strtof E (argv ! 1)) (strtof E (argv ! 2))) = Some its"
    and big: "28 * unat N < 2 ^ 64"
    and ents: "8 * unat its * unat N < 2 ^ 64"
    and runs: "its = 0 \<or> N \<noteq> 0 \<and> unat N < 2 ^ 31"
    and W1: "W1 < 2 ^ 64" "unat N mod W1 = 0"
    and W2: "W2 < 2 ^ 64" "unat N mod W2 = 0"
  shows "main A E W1 argv = main A E W2 argv"
proof -
  obtain G1 n1 G2 n2 where
    g1: "generate_debug_data A E (strtof E (argv ! 4))
      (if 6 < length argv then strtof E (argv ! 6) else flit A 100)
      (replicate (unat N) (junk_body E)) N = Some (G1, n1)"
    and m1: "main A E W1 argv =
      \<lparr>stdout = print_snapshot N (strtof E (argv ! 1)) (strtof E (argv ! 2)) G1 @
         lines_of (history A (fmul A (strtof E (argv ! 5)) (strtof E (argv ! 5)))
                    (strtof E (argv ! 2)) N (unat its) G1),
       stderr = [], status = Returned 0\<rparr>"
    and g2: "generate_debug_data A E (strtof E (argv ! 4))
      (if 6 < length argv then strtof E (argv ! 6) else flit A 100)
      (replicate (unat N) (junk_body E)) N = Some (G2, n2)"
    and m2: "main A E W2 argv =
      \<lparr>stdout = print_snapshot N (strtof E (argv ! 1)) (strtof E (argv ! 2)) G2 @
         lines_of (history A (fmul A (strtof E (argv ! 5)) (strtof E (argv ! 5)))
                    (strtof E (argv ! 2)) N (unat its) G2),
       stderr = [], status = Returned 0\<rparr>"
    using main_run [OF argv W1(1) N mem its W1(2) big ents runs]
      main_run [OF argv W2(1) N mem its W2(2) big ents runs]
    by blast
  from g1 g2 have "G1 = G2" by simp
  with m1 m2 show ?thesis by simp
qed

lemma compute_phase_no_bodies:
  "compute_phase A softening2 0 (0 div of_nat world_size) rank [] sub_bodies = None"
proof -
  have e: "loop_end 0 0 rank = - 1" by (rule loop_end_zero)
  have b: "loop_begin 0 rank = 0" by (simp add: loop_begin_def)
  obtain rest where u: "[0..<Suc (unat (- 1 :: size_t))] = 0 # rest"
    using upt_conv_Cons [of 0 "Suc (unat (- 1 :: size_t))"] by blast
  have "compute_loop A softening2 0 [] [0..<Suc (unat (- 1 :: size_t))] 0 sub_bodies = None"
    unfolding u by simp
  then show ?thesis
    by (simp add: e b compute_phase_def del: upt_Suc upt_rec_numeral)
qed

lemma run_no_bodies:
  "main ideal example_libc 1 [''nbody'', ''1'', ''0.5'', ''0'', ''1'', ''1''] =
     \<lparr>stdout = [Count 0, Scalar (Some 1), Scalar (Some (1 / 2))], stderr = [],
      status = Runtime_Failure\<rparr>"
proof -
  let ?argv = "[''nbody'', ''1'', ''0.5'', ''0'', ''1'', ''1'']"
  obtain G where G: "length G = unat (0 :: size_t)"
    and st: "startup ideal example_libc 1 0 ?argv =
      Ready (print_snapshot 0 (strtof example_libc (?argv ! 1)) (strtof example_libc (?argv ! 2)) G)
        \<lparr>p_delta_time = strtof example_libc (?argv ! 2), p_body_count = 0,
         p_softening2 = fmul ideal (strtof example_libc (?argv ! 5)) (strtof example_libc (?argv ! 5)),
         p_iterations = 2, p_acceleration_entries = 2 * 0 * 2,
         p_bodies = G, p_accelerations = replicate (2 * unat (2 :: size_t) * unat (0 :: size_t)) (junk example_libc),
         p_bodies_per_process = 0 div of_nat 1,
         p_sub_bodies = replicate (unat (0 :: size_t) div 1) (junk_body example_libc)\<rparr>"
    using startup_ready [of ?argv 1 0 example_libc ideal 2]
    by (auto simp: ideal_size_def)
  have G0: "G = []" using G by simp
  have it: "iteration ideal e dt 0 0 ([], [[]], accs, k) = None" for e dt accs k
    using compute_phase_no_bodies [of ideal e 1 0 "[]"]
    by (simp add: iteration_def MPI_Bcast_def)
  show ?thesis
    unfolding main_def st
    by (simp add: G0 upt_two it print_snapshot_def)
qed

subsection \<open>What the compute phase and the integrator leave alone\<close>

lemma integrate_frame [simp]:
  "ax (integrate A b dt) = ax b" "ay (integrate A b dt) = ay b"
  "mass (integrate A b dt) = mass b"
  by (simp_all add: integrate_def Let_def)

lemma accelerated_frame [simp]:
  "x (accelerated A e N bodies i) = x (bodies ! i)"
  "y (accelerated A e N bodies i) = y (bodies ! i)"
  "vx (accelerated A e N bodies i) = vx (bodies ! i)"
  "vy (accelerated A e N bodies i) = vy (bodies ! i)"
  "mass (accelerated A e N bodies i) = mass (bodies ! i)"
  by (simp_all add: accelerated_def)

lemma mass_advance:
  "length bodies = unat N \<Longrightarrow> map mass (advance A e dt N bodies) = map mass bodies"
proof -
  assume l: "length bodies = unat N"
  have "map mass (advance A e dt N bodies) = map (\<lambda>i. mass (bodies ! i)) [0..<length bodies]"
    by (simp add: advance_def l comp_def)
  also have "\<dots> = map mass (map (\<lambda>i. bodies ! i) [0..<length bodies])"
    by (simp add: comp_def)
  finally show ?thesis by (simp only: map_nth)
qed

lemma mass_advance_by:
  "length bodies = unat N \<Longrightarrow> map mass (advance_by A e dt N k bodies) = map mass bodies"
  by (induction k arbitrary: bodies) (simp_all add: mass_advance)

lemma sole_total: "total_acceleration A e 1 bodies 0 = (flit A 0, flit A 0)"
  by (simp add: total_acceleration_def add_contribution_def)

lemma sole_recorded:
  "recorded (advance A e dt 1 bodies) = [flit A 0, flit A 0]"
  by (simp add: advance_def recorded_def accelerated_def sole_total)

lemma sole_history:
  "history A e dt 1 k bodies = concat (replicate k [flit A 0, flit A 0])"
  by (induction k arbitrary: bodies) (simp_all add: sole_recorded)

lemma lines_of_replicate:
  "lines_of (concat (replicate k [a, b])) = replicate k (Vector a b)"
  by (induction k) simp_all

subsection \<open>The scenario of two bodies\<close>

lemma two_bodies_kernel:
  "calculate_newton_gravity_acceleration ideal (Some 0) (two_bodies ! 0) (two_bodies ! Suc 0)
     = (Some 1, Some 0)"
  "calculate_newton_gravity_acceleration ideal (Some 0) (two_bodies ! Suc 0) (two_bodies ! 0)
     = (Some (- 1), Some 0)"
  by (simp_all add: two_bodies_def calculate_newton_gravity_acceleration_def Let_def)

lemma two_bodies_total:
  "total_acceleration ideal (Some 0) 2 two_bodies 0 = (Some 1, Some 0)"
  "total_acceleration ideal (Some 0) 2 two_bodies (Suc 0) = (Some (- 1), Some 0)"
  by (simp_all add: total_acceleration_def add_contribution_def two_bodies_kernel upt_two)

lemma two_bodies_accelerated:
  "accelerated ideal (Some 0) 2 two_bodies 0 = (two_bodies ! 0)\<lparr>ax := Some 1, ay := Some 0\<rparr>"
  "accelerated ideal (Some 0) 2 two_bodies (Suc 0) =
     (two_bodies ! Suc 0)\<lparr>ax := Some (- 1), ay := Some 0\<rparr>"
  by (simp_all add: accelerated_def two_bodies_total)

lemma two_bodies_advance:
  "advance ideal (Some 0) (Some (1 / 100)) 2 two_bodies = two_bodies_after"
  by (simp add: advance_def two_bodies_accelerated upt_two)
     (simp add: two_bodies_def two_bodies_after_def integrate_def Let_def)

subsection \<open>The kernel in exact arithmetic\<close>


subsection \<open>The scenario of two bodies in binary32\<close>

lemma fp_two_bodies_total:
  "total_acceleration machine (Finite False 0 (- 149)) 2 fp_two_bodies 0 =
     (Finite False 8388608 (- 23), Finite False 0 (- 149))"
  "total_acceleration machine (Finite False 0 (- 149)) 2 fp_two_bodies (Suc 0) =
     (Finite True 8388608 (- 23), Finite False 0 (- 149))"
  by code_simp+

lemma fp_two_bodies_integrated:
  "[integrate machine
      ((fp_two_bodies ! 0)\<lparr>ax := Finite False 8388608 (- 23), ay := Finite False 0 (- 149)\<rparr>)
      (Finite False 10737418 (- 30)),
    integrate machine
      ((fp_two_bodies ! Suc 0)\<lparr>ax := Finite True 8388608 (- 23), ay := Finite False 0 (- 149)\<rparr>)
      (Finite False 10737418 (- 30))] = fp_two_bodies_after"
  by code_simp

lemma fp_two_bodies_advance:
  "advance machine (Finite False 0 (- 149)) (Finite False 10737418 (- 30)) 2 fp_two_bodies =
     fp_two_bodies_after"
  by (simp add: advance_def accelerated_def fp_two_bodies_total upt_two fp_two_bodies_integrated)

lemma machine_literals:
  "flit machine (1 / 100) = Finite False 10737418 (- 30)"
  "flit machine (1 / 10000) = Finite False 13743895 (- 37)"
  "flit machine 1 = Finite False 8388608 (- 23)"
  "flit machine 0 = Finite False 0 (- 149)"
  "fsub machine (flit machine 0) (flit machine 1) = Finite True 8388608 (- 23)"
  "fmul machine (flit machine 0) (flit machine 0) = Finite False 0 (- 149)"
  by code_simp+

lemma machine_operations:
  "fsub machine (Finite False 0 (- 149)) (Finite False 8388608 (- 23)) =
     Finite True 8388608 (- 23)"
  "fmul machine (Finite False 0 (- 149)) (Finite False 0 (- 149)) = Finite False 0 (- 149)"
  by code_simp+

lemma fp_two_bodies_iteration:
  assumes "W = 1 \<or> W = 2"
  shows "iteration machine (Finite False 0 (- 149)) (Finite False 10737418 (- 30)) 2
        (2 div of_nat W)
        (fp_two_bodies, replicate W (replicate (2 div W) coincident), replicate 4 NaN, 0) =
      Some (fp_two_bodies_after, slices machine (Finite False 0 (- 149)) 2 W fp_two_bodies,
            recorded fp_two_bodies_after, 4)"
proof -
  have l: "length fp_two_bodies = unat (2 :: size_t)" by (simp add: fp_two_bodies_def)
  show ?thesis
    using iteration_result [of W 2 fp_two_bodies "replicate W (replicate (2 div W) coincident)"
        0 "replicate 4 NaN" machine "Finite False 0 (- 149)" "Finite False 10737418 (- 30)"]
      l assms
    by (auto simp: fp_two_bodies_advance list_all_iff)
qed

subsection \<open>Rounding\<close>

lemma bit_length_pos:
  assumes "0 < M"
  shows "0 < bit_length M \<and> 2 ^ (nat (bit_length M) - 1) \<le> M \<and> M < 2 ^ nat (bit_length M)"
  using assms
proof (induction M rule: bit_length.induct)
  case (1 n)
  show ?case
  proof (cases "n = 1")
    case True
    have "bit_length 1 = 1" by (simp add: bit_length.simps [of 1] bit_length.simps [of 0])
    then show ?thesis using True by simp
  next
    case False
    with "1.prems" have h: "0 < n div 2" by simp
    have n: "\<not> n \<le> 0" using "1.prems" by simp
    note ih = "1.IH" [OF n h]
    let ?b = "bit_length (n div 2)"
    have b: "bit_length n = 1 + ?b" using n by (simp add: bit_length.simps [of n])
    have bp: "0 < ?b" using ih by blast
    have nb: "nat (1 + ?b) = Suc (nat ?b)" using bp by arith
    have nb1: "nat ?b = Suc (nat ?b - 1)" using bp by arith
    have lo: "2 ^ (nat ?b - 1) \<le> n div 2" using ih by simp
    have hi: "n div 2 < 2 ^ nat ?b" using ih by simp
    have "2 * 2 ^ (nat ?b - 1) \<le> n" using lo by linarith
    then have l2: "2 ^ nat ?b \<le> n" using nb1 by (metis power_Suc)
    have h2: "n < 2 * 2 ^ nat ?b" using hi by linarith
    show ?thesis unfolding b nb using ih l2 h2 by simp
  qed
qed

lemma pw_add: "pw (a + b) = pw a * pw b"
  by (simp add: powr_add)

lemma pw_nat: "pw (int n) = 2 ^ n"
  by (simp add: powr_realpow)

lemma pw_diff: "a \<le> b \<Longrightarrow> pw b = 2 ^ nat (b - a) * pw a"
proof -
  assume "a \<le> b"
  then have "b = int (nat (b - a)) + a" by simp
  then have "pw b = pw (int (nat (b - a)) + a)" by simp
  also have "\<dots> = 2 ^ nat (b - a) * pw a" by (simp only: pw_add pw_nat)
  finally show ?thesis .
qed

lemma pw_mono: "a \<le> b \<Longrightarrow> pw a \<le> pw b"
  by simp

lemma pw_less: "a < b \<longleftrightarrow> pw a < pw b"
  by simp

lemma pw_half: "pw e / 2 = pw (e - 1)"
  by (simp add: powr_diff)

lemma int_div_less:
  fixes a b c :: int
  assumes b: "0 < b" and a: "a < c * b"
  shows "a div b < c"
proof (rule ccontr)
  assume "\<not> a div b < c"
  then have "c \<le> a div b" by simp
  then have "c * b \<le> a div b * b" using b by (simp add: mult_right_mono)
  moreover have "a div b * b + a mod b = a" by (rule div_mult_mod_eq)
  moreover have "0 \<le> a mod b" using b by simp
  ultimately show False using a by linarith
qed

lemma int_le_div:
  fixes a b c :: int
  assumes b: "0 < b" and a: "c * b \<le> a"
  shows "c \<le> a div b"
proof -
  have "c * b div b \<le> a div b" using a b by (rule zdiv_mono1)
  then show ?thesis using b by simp
qed

lemma round_to_spec:
  assumes M: "0 < M" and p: "0 < precision F"
  shows "\<exists>k. 0 \<le> k \<and> k \<le> 2 ^ precision F \<and>
     (e_min F < E + bit_length M - int (precision F) \<longrightarrow> 2 ^ (precision F - 1) \<le> k) \<and>
     \<bar>real_of_int k * pw (max (E + bit_length M - int (precision F)) (e_min F)) -
        real_of_int M * pw E\<bar>
       \<le> pw (max (E + bit_length M - int (precision F)) (e_min F)) / 2 \<and>
     round_to F s M E =
       (if k = 2 ^ precision F
        then finish F s (2 ^ (precision F - 1))
               (max (E + bit_length M - int (precision F)) (e_min F) + 1)
        else finish F s k (max (E + bit_length M - int (precision F)) (e_min F)))"
proof -
  let ?p = "precision F"
  let ?b = "bit_length M"
  let ?e = "max (E + ?b - int ?p) (e_min F)"
  note bl = bit_length_pos [OF M]
  have Mlo: "2 ^ (nat ?b - 1) \<le> M" and Mhi: "M < 2 ^ nat ?b" and bp: "0 < ?b"
    using bl by blast+
  show ?thesis
  proof (cases "?e \<le> E")
    case True
    let ?k = "M * 2 ^ nat (E - ?e)"
    have M0: "M \<noteq> 0" using M by simp
    have r: "round_to F s M E = finish F s ?k ?e"
      unfolding round_to_def Let_def by (simp only: M0 True if_True if_False)
    have le: "nat (E - ?e) + nat ?b \<le> ?p" using True bp by arith
    have "?k < 2 ^ nat ?b * 2 ^ nat (E - ?e)" using Mhi by simp
    also have "\<dots> = 2 ^ (nat (E - ?e) + nat ?b)" by (simp add: power_add)
    also have "\<dots> \<le> 2 ^ ?p" using le by (rule power_increasing) simp
    finally have k1: "?k < 2 ^ ?p" .
    have k0: "0 \<le> ?k" using M by simp
    have v: "real_of_int ?k * pw ?e = real_of_int M * pw E"
      using pw_diff [OF True] by simp
    have n: "e_min F < E + ?b - int ?p \<longrightarrow> 2 ^ (?p - 1) \<le> ?k"
    proof
      assume a: "e_min F < E + ?b - int ?p"
      then have e: "?e = E + ?b - int ?p" by simp
      have s: "nat (E - ?e) + (nat ?b - 1) = ?p - 1" using bp True e p by arith
      have "(2::int) ^ (?p - 1) = 2 ^ (nat ?b - 1) * 2 ^ nat (E - ?e)"
        unfolding s [symmetric] by (simp add: power_add)
      also have "\<dots> \<le> ?k" using Mlo by simp
      finally show "2 ^ (?p - 1) \<le> ?k" .
    qed
    have k1': "?k \<le> 2 ^ ?p" using k1 by simp
    have err: "\<bar>real_of_int ?k * pw ?e - real_of_int M * pw E\<bar> \<le> pw ?e / 2"
      unfolding v by simp
    have ne: "?k \<noteq> 2 ^ ?p" using k1 by simp
    have r': "round_to F s M E =
        (if ?k = 2 ^ ?p then finish F s (2 ^ (?p - 1)) (?e + 1) else finish F s ?k ?e)"
      unfolding r using ne by (simp only: if_False)
    show ?thesis
      by (rule exI [of _ ?k]) (intro conjI k0 k1' n err r')
  next
    case False
    then have lt: "E < ?e" by (simp only: not_le)
    let ?sh = "nat (?e - E)"
    let ?q = "M div 2 ^ ?sh"
    let ?r = "M mod 2 ^ ?sh"
    let ?half = "(2::int) ^ (?sh - 1)"
    let ?k = "if ?half < ?r \<or> (?r = ?half \<and> odd ?q) then ?q + 1 else ?q"
    have sh: "0 < ?sh" using lt by simp
    have M0: "M \<noteq> 0" using M by simp
    have r: "round_to F s M E =
        (if ?k = 2 ^ ?p then finish F s (2 ^ (?p - 1)) (?e + 1) else finish F s ?k ?e)"
      unfolding round_to_def Let_def by (simp only: M0 False if_False)
    have q0: "0 \<le> ?q" using M by (simp add: pos_imp_zdiv_nonneg_iff)
    have r0: "0 \<le> ?r" by simp
    have r1: "?r < 2 ^ ?sh" by simp
    have dm: "M = ?q * 2 ^ ?sh + ?r" by (rule div_mult_mod_eq [symmetric])
    have shb: "nat ?b \<le> ?sh + ?p" using lt bp by arith
    have "(2::int) ^ nat ?b \<le> 2 ^ (?sh + ?p)" using shb by (rule power_increasing) simp
    with Mhi have "M < 2 ^ (?sh + ?p)" by (rule less_le_trans)
    then have "M < 2 ^ ?p * 2 ^ ?sh" by (simp add: power_add mult.commute)
    then have qhi: "?q < 2 ^ ?p" by (intro int_div_less) simp_all
    have k0: "0 \<le> ?k" using q0 by simp
    have k1: "?k \<le> 2 ^ ?p" using qhi by simp
    have two: "(2::int) ^ ?sh = 2 * ?half" using sh by (cases ?sh) simp_all
    have two_r: "(2::real) ^ ?sh = 2 * 2 ^ (?sh - 1)" using sh by (cases ?sh) simp_all
    have pe: "pw ?e = 2 ^ ?sh * pw E" using pw_diff [of E ?e] lt by simp
    have ph: "pw ?e / 2 = real_of_int ?half * pw E"
      unfolding pe two_r by simp
    have x: "real_of_int M * pw E = (real_of_int ?q * 2 ^ ?sh + real_of_int ?r) * pw E"
    proof -
      have "real_of_int M = real_of_int (?q * 2 ^ ?sh + ?r)" using dm by simp
      then show ?thesis by simp
    qed
    have pE: "0 \<le> pw E" by simp
    have err: "\<bar>real_of_int ?k * pw ?e - real_of_int M * pw E\<bar> \<le> pw ?e / 2"
    proof (cases "?half < ?r \<or> (?r = ?half \<and> odd ?q)")
      case True
      then have k: "?k = ?q + 1" by (simp only: if_True)
      have hr: "?half \<le> ?r" using True by auto
      have d: "real_of_int ?k * pw ?e - real_of_int M * pw E =
          (2 ^ ?sh - real_of_int ?r) * pw E"
        unfolding k x pe by (simp add: algebra_simps)
      have u: "2 ^ ?sh - real_of_int ?r \<le> real_of_int ?half"
      proof -
        have "2 ^ ?sh - ?r \<le> ?half" using hr two by linarith
        then have "real_of_int (2 ^ ?sh - ?r) \<le> real_of_int ?half" by (simp only: of_int_le_iff)
        then show ?thesis by simp
      qed
      have l: "0 \<le> 2 ^ ?sh - real_of_int ?r"
      proof -
        have "0 \<le> 2 ^ ?sh - ?r" using r1 by linarith
        then have "0 \<le> real_of_int (2 ^ ?sh - ?r)" by (simp only: of_int_0_le_iff)
        then show ?thesis by simp
      qed
      have "0 \<le> (2 ^ ?sh - real_of_int ?r) * pw E" using l pE by (rule mult_nonneg_nonneg)
      moreover have "(2 ^ ?sh - real_of_int ?r) * pw E \<le> real_of_int ?half * pw E"
        using u pE by (rule mult_right_mono)
      ultimately show ?thesis unfolding d ph by (simp only: abs_of_nonneg)
    next
      case False
      then have k: "?k = ?q" by (simp only: if_False)
      have hr: "?r \<le> ?half" using False by auto
      have d: "real_of_int ?k * pw ?e - real_of_int M * pw E = - (real_of_int ?r * pw E)"
        unfolding k x pe by (simp add: algebra_simps)
      have u: "real_of_int ?r \<le> real_of_int ?half" using hr by (simp only: of_int_le_iff)
      have l: "0 \<le> real_of_int ?r" using r0 by (simp only: of_int_0_le_iff)
      have "0 \<le> real_of_int ?r * pw E" using l pE by (rule mult_nonneg_nonneg)
      moreover have "real_of_int ?r * pw E \<le> real_of_int ?half * pw E"
        using u pE by (rule mult_right_mono)
      ultimately show ?thesis unfolding d ph by (simp only: abs_minus_cancel abs_of_nonneg)
    qed
    have n: "e_min F < E + ?b - int ?p \<longrightarrow> 2 ^ (?p - 1) \<le> ?k"
    proof
      assume a: "e_min F < E + ?b - int ?p"
      then have e: "?e = E + ?b - int ?p" by simp
      have s: "?sh + (?p - 1) = nat ?b - 1" using bp lt e p by arith
      have "(2::int) ^ (?p - 1) * 2 ^ ?sh = 2 ^ (nat ?b - 1)"
        unfolding s [symmetric] by (simp add: power_add)
      also have "\<dots> \<le> M" by (rule Mlo)
      finally have "2 ^ (?p - 1) \<le> ?q"
        by (intro int_le_div) simp_all
      then show "2 ^ (?p - 1) \<le> ?k" by simp
    qed
    show ?thesis
      by (rule exI [of _ ?k]) (intro conjI k0 k1 n err r)
  qed
qed

lemma pw_pos: "0 < pw e"
  by simp

lemma pw_Suc: "pw (e + 1) = 2 * pw e"
  by (simp add: powr_add)

lemma pw_int_add: "pw (int n + e) = 2 ^ n * pw e"
  by (simp only: pw_add pw_nat)

lemma int_le_half:
  fixes k P :: int
  assumes "real_of_int k \<le> real_of_int P + 1 / 2"
  shows "k \<le> P"
proof -
  have "real_of_int k < real_of_int (P + 1)" using assms by simp
  then have "k < P + 1" by (simp only: of_int_less_iff)
  then show ?thesis by simp
qed

lemma int_ge_half:
  fixes k P :: int
  assumes "real_of_int P - 1 / 2 \<le> real_of_int k"
  shows "P \<le> k"
proof -
  have "real_of_int (P - 1) < real_of_int k" using assms by simp
  then have "P - 1 < k" by (simp only: of_int_less_iff)
  then show ?thesis by simp
qed

lemma round_to_upper:
  assumes M: "0 < M" and p: "0 < precision F"
    and N: "N < 2 ^ precision F" and G: "e_min F \<le> G" "G \<le> e_max F"
    and le: "real_of_int M * pw E \<le> real_of_int N * pw G"
  shows "\<exists>q e. round_to F s M E = Finite s q e \<and> 0 \<le> q \<and>
    real_of_int q * pw e \<le> real_of_int N * pw G"
proof -
  let ?p = "precision F"
  let ?b = "bit_length M"
  let ?e = "max (E + ?b - int ?p) (e_min F)"
  obtain k where k0: "0 \<le> k" and k1: "k \<le> 2 ^ ?p"
    and kn: "e_min F < E + ?b - int ?p \<longrightarrow> 2 ^ (?p - 1) \<le> k"
    and err: "\<bar>real_of_int k * pw ?e - real_of_int M * pw E\<bar> \<le> pw ?e / 2"
    and r: "round_to F s M E =
       (if k = 2 ^ ?p then finish F s (2 ^ (?p - 1)) (?e + 1) else finish F s k ?e)"
    using round_to_spec [OF M p, of E s] by blast
  note bl = bit_length_pos [OF M]
  have Mlo: "2 ^ (nat ?b - 1) \<le> M" and bp: "0 < ?b" using bl by blast+
  have Nr: "real_of_int N < 2 ^ ?p"
  proof -
    have "real_of_int N < real_of_int (2 ^ ?p)" using N by (simp only: of_int_less_iff)
    then show ?thesis by simp
  qed
  have eG: "?e \<le> G"
  proof (rule ccontr)
    assume "\<not> ?e \<le> G"
    then have lt: "G < ?e" by (simp only: not_le)
    then have e: "?e = E + ?b - int ?p" using G(1) by linarith
    have "real_of_int N * pw G < 2 ^ ?p * pw G" using Nr by simp
    also have "\<dots> = pw (int ?p + G)" by (simp only: pw_int_add)
    also have "\<dots> \<le> pw (int (nat ?b - 1) + E)" using lt e bp by (intro pw_mono) linarith
    also have "\<dots> = 2 ^ (nat ?b - 1) * pw E" by (simp only: pw_int_add)
    also have "\<dots> \<le> real_of_int M * pw E"
    proof -
      have "real_of_int (2 ^ (nat ?b - 1)) \<le> real_of_int M" using Mlo by (simp only: of_int_le_iff)
      then show ?thesis by simp
    qed
    finally show False using le by simp
  qed
  let ?P = "N * 2 ^ nat (G - ?e)"
  have v: "real_of_int N * pw G = real_of_int ?P * pw ?e"
    using pw_diff [OF eG] by simp
  have "real_of_int k * pw ?e \<le> real_of_int M * pw E + pw ?e / 2" using err by linarith
  also have "\<dots> \<le> real_of_int ?P * pw ?e + pw ?e / 2" using le v by simp
  also have "\<dots> = (real_of_int ?P + 1 / 2) * pw ?e" by (simp add: algebra_simps)
  finally have "real_of_int k \<le> real_of_int ?P + 1 / 2"
    using pw_pos [of ?e] by (simp only: mult_le_cancel_right_pos)
  then have kP: "k \<le> ?P" by (rule int_le_half)
  have kv: "real_of_int k * pw ?e \<le> real_of_int N * pw G"
  proof -
    have "real_of_int k \<le> real_of_int ?P" using kP by (simp only: of_int_le_iff)
    then have "real_of_int k * pw ?e \<le> real_of_int ?P * pw ?e"
      using pw_pos [of ?e] by (simp only: mult_le_cancel_right_pos)
    then show ?thesis unfolding v .
  qed
  show ?thesis
  proof (cases "k = 2 ^ ?p")
    case True
    have "2 ^ ?p * pw ?e \<le> real_of_int N * pw G" using kv True by simp
    also have "\<dots> < 2 ^ ?p * pw G" using Nr by simp
    finally have "pw ?e < pw G" by simp
    then have "?e < G" by (simp only: pw_less [symmetric])
    then have "?e + 1 \<le> e_max F" using G(2) by linarith
    then have em: "\<not> e_max F < ?e + 1" by (simp only: not_less)
    have f: "round_to F s M E = Finite s (2 ^ (?p - 1)) (?e + 1)"
      unfolding r finish_def using True em by (simp only: if_True if_False simp_thms)
    have "(2::real) ^ ?p = 2 * 2 ^ (?p - 1)" using p by (cases ?p) simp_all
    then have "real_of_int (2 ^ (?p - 1)) * pw (?e + 1) = real_of_int k * pw ?e"
      unfolding True pw_Suc by simp
    with kv have v2: "real_of_int (2 ^ (?p - 1)) * pw (?e + 1) \<le> real_of_int N * pw G"
      by (simp only:)
    have q0: "(0::int) \<le> 2 ^ (?p - 1)" by simp
    from f q0 v2 show ?thesis by blast
  next
    case False
    have "?e \<le> e_max F" using eG G(2) by linarith
    then have em: "\<not> e_max F < ?e" by (simp only: not_less)
    have f: "round_to F s M E = Finite s k ?e"
      unfolding r finish_def using False em by (simp only: if_False simp_thms)
    with kv k0 show ?thesis by blast
  qed
qed

lemma finish_cases:
  "finish F s m e = Infinity s \<or> finish F s m e = Finite s m e"
  by (simp add: finish_def)

lemma round_to_lower:
  assumes M: "0 < M" and p: "0 < precision F"
    and N: "N < 2 ^ precision F" and G: "e_min F \<le> G"
    and le: "real_of_int N * pw G \<le> real_of_int M * pw E"
  shows "round_to F s M E = Infinity s \<or>
    (\<exists>q e. round_to F s M E = Finite s q e \<and> 0 \<le> q \<and>
       real_of_int N * pw G \<le> real_of_int q * pw e)"
proof -
  let ?p = "precision F"
  let ?b = "bit_length M"
  let ?e = "max (E + ?b - int ?p) (e_min F)"
  obtain k where k0: "0 \<le> k" and k1: "k \<le> 2 ^ ?p"
    and kn: "e_min F < E + ?b - int ?p \<longrightarrow> 2 ^ (?p - 1) \<le> k"
    and err: "\<bar>real_of_int k * pw ?e - real_of_int M * pw E\<bar> \<le> pw ?e / 2"
    and r: "round_to F s M E =
       (if k = 2 ^ ?p then finish F s (2 ^ (?p - 1)) (?e + 1) else finish F s k ?e)"
    using round_to_spec [OF M p, of E s] by blast
  have Nr: "real_of_int N < 2 ^ ?p"
  proof -
    have "real_of_int N < real_of_int (2 ^ ?p)" using N by (simp only: of_int_less_iff)
    then show ?thesis by simp
  qed
  have p2: "(2::real) ^ ?p = 2 * 2 ^ (?p - 1)" using p by (cases ?p) simp_all
  have kv: "real_of_int N * pw G \<le> real_of_int k * pw ?e"
  proof (cases "?e \<le> G")
    case True
    let ?P = "N * 2 ^ nat (G - ?e)"
    have v: "real_of_int N * pw G = real_of_int ?P * pw ?e"
      using pw_diff [OF True] by simp
    have "(real_of_int ?P - 1 / 2) * pw ?e = real_of_int ?P * pw ?e - pw ?e / 2"
      by (simp add: algebra_simps)
    also have "\<dots> \<le> real_of_int M * pw E - pw ?e / 2" using le v by simp
    also have "\<dots> \<le> real_of_int k * pw ?e" using err by linarith
    finally have "real_of_int ?P - 1 / 2 \<le> real_of_int k"
      using pw_pos [of ?e] by (simp only: mult_le_cancel_right_pos)
    then have "?P \<le> k" by (rule int_ge_half)
    then have "real_of_int ?P \<le> real_of_int k" by (simp only: of_int_le_iff)
    then have "real_of_int ?P * pw ?e \<le> real_of_int k * pw ?e"
      using pw_pos [of ?e] by (simp only: mult_le_cancel_right_pos)
    then show ?thesis unfolding v .
  next
    case False
    then have lt: "G < ?e" by (simp only: not_le)
    then have "e_min F < E + ?b - int ?p" using G by linarith
    with kn have "2 ^ (?p - 1) \<le> k" by blast
    then have kr: "2 ^ (?p - 1) \<le> real_of_int k"
    proof -
      assume "2 ^ (?p - 1) \<le> k"
      then have "real_of_int (2 ^ (?p - 1)) \<le> real_of_int k" by (simp only: of_int_le_iff)
      then show ?thesis by simp
    qed
    have "real_of_int N * pw G \<le> 2 ^ ?p * pw G" using Nr by simp
    also have "\<dots> = 2 ^ (?p - 1) * pw (G + 1)" unfolding p2 pw_Suc by simp
    also have "\<dots> \<le> 2 ^ (?p - 1) * pw ?e" using lt by simp
    also have "\<dots> \<le> real_of_int k * pw ?e" using kr by simp
    finally show ?thesis .
  qed
  show ?thesis
  proof (cases "k = 2 ^ ?p")
    case True
    have "real_of_int (2 ^ (?p - 1)) * pw (?e + 1) = real_of_int k * pw ?e"
      unfolding True pw_Suc using p2 by simp
    with kv have v2: "real_of_int N * pw G \<le> real_of_int (2 ^ (?p - 1)) * pw (?e + 1)"
      by (simp only:)
    have q0: "(0::int) \<le> 2 ^ (?p - 1)" by simp
    have "round_to F s M E = finish F s (2 ^ (?p - 1)) (?e + 1)"
      unfolding r using True by simp
    with v2 q0 show ?thesis
      using finish_cases [of F s "2 ^ (?p - 1)" "?e + 1"] by metis
  next
    case False
    have "round_to F s M E = finish F s k ?e" unfolding r using False by simp
    with kv k0 show ?thesis using finish_cases [of F s k ?e] by metis
  qed
qed

lemma pw_pivot:
  assumes p: "0 < precision F" and F: "e_min F \<le> e_max F"
    and j: "e_min F \<le> j" "j \<le> e_max F + int (precision F) - 1"
  shows "\<exists>N G. pw j = real_of_int N * pw G \<and> 0 \<le> N \<and> N < 2 ^ precision F \<and>
    e_min F \<le> G \<and> G \<le> e_max F"
proof (cases "j \<le> e_max F")
  case True
  have "pw j = real_of_int 1 * pw j" by simp
  moreover have "(1::int) < 2 ^ precision F" using p by simp
  ultimately show ?thesis using j True by (intro exI [of _ 1] exI [of _ j]) simp
next
  case False
  let ?d = "nat (j - e_max F)"
  have le: "e_max F \<le> j" using False by simp
  have "pw j = real_of_int (2 ^ ?d) * pw (e_max F)" using pw_diff [OF le] by simp
  moreover have "?d < precision F" using j False by linarith
  then have "(2::int) ^ ?d < 2 ^ precision F" by simp
  ultimately show ?thesis using F by (intro exI [of _ "2 ^ ?d"] exI [of _ "e_max F"]) simp
qed

lemma round_to_zero: "round_to F s 0 E = Finite s 0 (e_min F)"
  by (simp add: round_to_def)

lemma fp_mul_upper:
  assumes p: "0 < precision F" and m: "0 \<le> m" and n: "0 \<le> n"
    and N: "0 \<le> N" "N < 2 ^ precision F" and G: "e_min F \<le> G" "G \<le> e_max F"
    and le: "(real_of_int m * pw e) * (real_of_int n * pw f) \<le> real_of_int N * pw G"
  shows "\<exists>q e'. fp_mul F (Finite s m e) (Finite t n f) = Finite (s \<noteq> t) q e' \<and> 0 \<le> q \<and>
    real_of_int q * pw e' \<le> real_of_int N * pw G"
proof (cases "m * n = 0")
  case True
  have v: "real_of_int 0 * pw (e_min F) \<le> real_of_int N * pw G" using N(1) by simp
  have "fp_mul F (Finite s m e) (Finite t n f) = Finite (s \<noteq> t) 0 (e_min F)"
    unfolding fp_mul.simps True by (rule round_to_zero)
  with v show ?thesis by blast
next
  case False
  have "0 \<le> m * n" using m n by simp
  with False have M: "0 < m * n" by linarith
  have "real_of_int (m * n) * pw (e + f) = (real_of_int m * pw e) * (real_of_int n * pw f)"
    by (simp add: powr_add)
  with le have "real_of_int (m * n) * pw (e + f) \<le> real_of_int N * pw G" by (simp only:)
  from round_to_upper [OF M p N(2) G this, of "s \<noteq> t"] show ?thesis by simp
qed

lemma fp_mul_lower:
  assumes p: "0 < precision F" and m: "0 < m" and n: "0 < n"
    and N: "N < 2 ^ precision F" and G: "e_min F \<le> G"
    and le: "real_of_int N * pw G \<le> (real_of_int m * pw e) * (real_of_int n * pw f)"
  shows "fp_mul F (Finite s m e) (Finite t n f) = Infinity (s \<noteq> t) \<or>
    (\<exists>q e'. fp_mul F (Finite s m e) (Finite t n f) = Finite (s \<noteq> t) q e' \<and> 0 \<le> q \<and>
       real_of_int N * pw G \<le> real_of_int q * pw e')"
proof -
  have M: "0 < m * n" using m n by simp
  have "real_of_int (m * n) * pw (e + f) = (real_of_int m * pw e) * (real_of_int n * pw f)"
    by (simp add: powr_add)
  with le have "real_of_int N * pw G \<le> real_of_int (m * n) * pw (e + f)" by (simp only:)
  from round_to_lower [OF M p N G this, of "s \<noteq> t"] show ?thesis by simp
qed

lemma fp_add_value:
  assumes m: "0 \<le> m" and n: "0 \<le> n"
  shows "real_of_int (m * 2 ^ nat (e - min e f) + n * 2 ^ nat (f - min e f)) * pw (min e f) =
    real_of_int m * pw e + real_of_int n * pw f"
proof -
  have "pw e = 2 ^ nat (e - min e f) * pw (min e f)" by (rule pw_diff) simp
  moreover have "pw f = 2 ^ nat (f - min e f) * pw (min e f)" by (rule pw_diff) simp
  ultimately show ?thesis by (simp add: algebra_simps)
qed

lemma fp_add_lower:
  assumes p: "0 < precision F" and m: "0 \<le> m" and n: "0 \<le> n"
    and N: "0 < N" "N < 2 ^ precision F" and G: "e_min F \<le> G"
    and le: "real_of_int N * pw G \<le> real_of_int m * pw e + real_of_int n * pw f"
  shows "fp_add F (Finite False m e) (Finite False n f) = Infinity False \<or>
    (\<exists>q e'. fp_add F (Finite False m e) (Finite False n f) = Finite False q e' \<and> 0 \<le> q \<and>
       real_of_int N * pw G \<le> real_of_int q * pw e')"
proof -
  let ?g = "min e f"
  let ?z = "m * 2 ^ nat (e - ?g) + n * 2 ^ nat (f - ?g)"
  have v: "real_of_int ?z * pw ?g = real_of_int m * pw e + real_of_int n * pw f"
    using m n by (rule fp_add_value)
  have "0 < real_of_int N * pw G" using N(1) by simp
  with le v have "0 < real_of_int ?z * pw ?g" by linarith
  then have "0 < real_of_int ?z" by (simp add: zero_less_mult_iff)
  then have z: "0 < ?z" by (simp only: of_int_0_less_iff)
  have a: "fp_add F (Finite False m e) (Finite False n f) = round_to F False ?z ?g"
    using z by (simp add: Let_def)
  from le v have "real_of_int N * pw G \<le> real_of_int ?z * pw ?g" by (simp only:)
  from round_to_lower [OF z p N(2) G this, of False] show ?thesis unfolding a .
qed

lemma of_int_le_cancel_pw:
  assumes "real_of_int a * pw E \<le> real_of_int b * pw E"
  shows "a \<le> b"
proof -
  have "real_of_int a \<le> real_of_int b"
    using assms pw_pos [of E] by (simp only: mult_le_cancel_right_pos)
  then show ?thesis by (simp only: of_int_le_iff)
qed

lemma fp_div_facts:
  fixes e f :: int
  assumes p: "0 < precision F" and m: "0 < m" and n: "0 < n"
    and k_def: "k = nat (int (precision F) + 2 + bit_length n)"
    and q_def: "q = (m * 2 ^ k) div n"
    and r_def: "r = (m * 2 ^ k) mod n"
    and M_def: "M = 4 * q + (if r = 0 then 0 else 1)"
    and E_def: "E = e - f - int k - 2"
  shows "fp_div F (Finite s m e) (Finite t n f) = round_to F (s \<noteq> t) M E"
    and "2 ^ (precision F + 2) \<le> q"
    and "m * 2 ^ k = q * n + r" and "0 \<le> r" and "r < n"
    and "real_of_int m * pw e = real_of_int (4 * (m * 2 ^ k)) * pw E * pw f"
proof -
  show "fp_div F (Finite s m e) (Finite t n f) = round_to F (s \<noteq> t) M E"
    using m n unfolding M_def E_def r_def q_def k_def by (simp add: Let_def)
  have nb: "n < 2 ^ nat (bit_length n)" and bp: "0 < bit_length n"
    using bit_length_pos [OF n] by blast+
  have ks: "k = (precision F + 2) + nat (bit_length n)" unfolding k_def using bp by arith
  have "2 ^ (precision F + 2) * n \<le> 2 ^ (precision F + 2) * 2 ^ nat (bit_length n)"
    using nb by simp
  also have "\<dots> = 2 ^ k" unfolding ks by (simp only: power_add)
  also have "\<dots> \<le> m * 2 ^ k" using m by simp
  finally show "2 ^ (precision F + 2) \<le> q" unfolding q_def using n by (intro int_le_div)
  show "m * 2 ^ k = q * n + r" unfolding q_def r_def by (rule div_mult_mod_eq [symmetric])
  show "0 \<le> r" unfolding r_def using n by simp
  show "r < n" unfolding r_def using n by simp
  have "e = int (k + 2) + (E + f)" unfolding E_def by simp
  then have "pw e = pw (int (k + 2) + (E + f))" by simp
  also have "\<dots> = 2 ^ (k + 2) * pw (E + f)" by (simp only: pw_int_add)
  also have "\<dots> = 2 ^ (k + 2) * (pw E * pw f)" by (simp only: pw_add)
  finally show "real_of_int m * pw e = real_of_int (4 * (m * 2 ^ k)) * pw E * pw f"
    by simp
qed

lemma fp_div_upper:
  assumes p: "0 < precision F" and m: "0 < m" and n: "0 < n"
    and N: "N < 2 ^ precision F" and G: "e_min F \<le> G" "G \<le> e_max F"
    and le: "real_of_int m * pw e \<le> real_of_int N * pw G * (real_of_int n * pw f)"
  shows "\<exists>q' e'. fp_div F (Finite s m e) (Finite t n f) = Finite (s \<noteq> t) q' e' \<and> 0 \<le> q' \<and>
    real_of_int q' * pw e' \<le> real_of_int N * pw G"
proof -
  define k where "k = nat (int (precision F) + 2 + bit_length n)"
  define q where "q = (m * 2 ^ k) div n"
  define r where "r = (m * 2 ^ k) mod n"
  define M where "M = 4 * q + (if r = 0 then 0 else 1)"
  define E where "E = e - f - int k - 2"
  note f = fp_div_facts [OF p m n k_def q_def r_def M_def E_def]
  have q4: "2 ^ (precision F + 2) \<le> q" by (rule f(2))
  have qpos: "0 < q"
  proof -
    have "(0::int) < 2 ^ (precision F + 2)" by simp
    with q4 show ?thesis by linarith
  qed
  have Mpos: "0 < M" unfolding M_def using qpos by simp
  have A: "real_of_int (4 * (m * 2 ^ k)) * pw E \<le> real_of_int (N * n) * pw G"
  proof -
    have "real_of_int (4 * (m * 2 ^ k)) * pw E * pw f \<le> (real_of_int (N * n) * pw G) * pw f"
      using le unfolding f(6) by (simp add: algebra_simps)
    then show ?thesis using pw_pos [of f] by (simp only: mult_le_cancel_right_pos)
  qed
  have B: "E + 4 < G"
  proof -
    have "real_of_int (2 ^ (precision F + 4) * n) * pw E \<le> real_of_int (4 * q * n) * pw E"
    proof -
      have "(2::int) ^ (precision F + 4) = 4 * 2 ^ (precision F + 2)" by (simp add: power_add)
      then have "2 ^ (precision F + 4) \<le> 4 * q" using q4 by linarith
      then have "2 ^ (precision F + 4) * n \<le> 4 * q * n" using n by (intro mult_right_mono) simp_all
      then have "real_of_int (2 ^ (precision F + 4) * n) \<le> real_of_int (4 * q * n)"
        by (simp only: of_int_le_iff)
      then show ?thesis using pw_pos [of E] by (simp only: mult_le_cancel_right_pos)
    qed
    also have "\<dots> \<le> real_of_int (4 * (m * 2 ^ k)) * pw E"
    proof -
      have "4 * q * n \<le> 4 * (m * 2 ^ k)" unfolding f(3) using f(4) by simp
      then have "real_of_int (4 * q * n) \<le> real_of_int (4 * (m * 2 ^ k))"
        by (simp only: of_int_le_iff)
      then show ?thesis using pw_pos [of E] by (simp only: mult_le_cancel_right_pos)
    qed
    also note A
    also have "real_of_int (N * n) * pw G < real_of_int (2 ^ precision F * n) * pw G"
    proof -
      have "N * n < 2 ^ precision F * n" using N n by simp
      then have "real_of_int (N * n) < real_of_int (2 ^ precision F * n)"
        by (simp only: of_int_less_iff)
      then show ?thesis using pw_pos [of G] by (simp only: mult_less_cancel_right_pos)
    qed
    finally have "2 ^ (precision F + 4) * pw E < 2 ^ precision F * pw G"
      using n by (simp add: power_add)
    then have "pw (int 4 + E) < pw G" unfolding pw_int_add by (simp add: power_add)
    then show ?thesis by (simp only: pw_less [symmetric])
  qed
  define d where "d = nat (G - E - 2)"
  define V where "V = N * 2 ^ d"
  have G2: "G = int (d + 2) + E" unfolding d_def using B by simp
  have pG: "pw G = 2 ^ (d + 2) * pw E" unfolding G2 by (simp only: pw_int_add)
  have NG: "real_of_int N * pw G = real_of_int (4 * V) * pw E"
    unfolding pG V_def by simp
  have C: "m * 2 ^ k \<le> V * n"
  proof -
    have "real_of_int (4 * (m * 2 ^ k)) * pw E \<le> real_of_int (4 * (V * n)) * pw E"
      using A unfolding pG V_def by (simp add: algebra_simps)
    then have "4 * (m * 2 ^ k) \<le> 4 * (V * n)" by (rule of_int_le_cancel_pw)
    then show ?thesis by simp
  qed
  have D: "q \<le> V"
  proof -
    have "q * n \<le> V * n" using C f(3) f(4) by linarith
    then show ?thesis using n by simp
  qed
  have MV: "M \<le> 4 * V"
  proof (cases "q = V")
    case True
    have "r \<le> 0" using C f(3) unfolding True by linarith
    with f(4) have "r = 0" by linarith
    then show ?thesis unfolding M_def True by simp
  next
    case False
    with D have "q + 1 \<le> V" by linarith
    then show ?thesis unfolding M_def by simp
  qed
  have "real_of_int M * pw E \<le> real_of_int (4 * V) * pw E"
  proof -
    have "real_of_int M \<le> real_of_int (4 * V)" using MV by (simp only: of_int_le_iff)
    then show ?thesis using pw_pos [of E] by (simp only: mult_le_cancel_right_pos)
  qed
  then have "real_of_int M * pw E \<le> real_of_int N * pw G" unfolding NG .
  from round_to_upper [OF Mpos p N G this, of "s \<noteq> t"] show ?thesis unfolding f(1) .
qed

lemma fp_div_lower:
  assumes p: "0 < precision F" and m: "0 < m" and n: "0 < n"
    and N: "0 \<le> N" "N < 2 ^ precision F" and G: "e_min F \<le> G"
    and le: "real_of_int N * pw G * (real_of_int n * pw f) \<le> real_of_int m * pw e"
  shows "fp_div F (Finite s m e) (Finite t n f) = Infinity (s \<noteq> t) \<or>
    (\<exists>q' e'. fp_div F (Finite s m e) (Finite t n f) = Finite (s \<noteq> t) q' e' \<and> 0 \<le> q' \<and>
      real_of_int N * pw G \<le> real_of_int q' * pw e')"
proof -
  define k where "k = nat (int (precision F) + 2 + bit_length n)"
  define q where "q = (m * 2 ^ k) div n"
  define r where "r = (m * 2 ^ k) mod n"
  define M where "M = 4 * q + (if r = 0 then 0 else 1)"
  define E where "E = e - f - int k - 2"
  note f = fp_div_facts [OF p m n k_def q_def r_def M_def E_def]
  have q4: "2 ^ (precision F + 2) \<le> q" by (rule f(2))
  have qpos: "0 < q"
  proof -
    have "(0::int) < 2 ^ (precision F + 2)" by simp
    with q4 show ?thesis by linarith
  qed
  have Mpos: "0 < M" unfolding M_def using qpos by simp
  have Mq: "4 * q \<le> M" unfolding M_def by simp
  have A: "real_of_int (N * n) * pw G \<le> real_of_int (4 * (m * 2 ^ k)) * pw E"
  proof -
    have "(real_of_int (N * n) * pw G) * pw f \<le> real_of_int (4 * (m * 2 ^ k)) * pw E * pw f"
      using le unfolding f(6) by (simp add: algebra_simps)
    then show ?thesis using pw_pos [of f] by (simp only: mult_le_cancel_right_pos)
  qed
  have "real_of_int N * pw G \<le> real_of_int M * pw E"
  proof (cases "E + 2 \<le> G")
    case True
    define d where "d = nat (G - E - 2)"
    define V where "V = N * 2 ^ d"
    have G2: "G = int (d + 2) + E" unfolding d_def using True by simp
    have pG: "pw G = 2 ^ (d + 2) * pw E" unfolding G2 by (simp only: pw_int_add)
    have NG: "real_of_int N * pw G = real_of_int (4 * V) * pw E"
      unfolding pG V_def by simp
    have "real_of_int (4 * (V * n)) * pw E \<le> real_of_int (4 * (m * 2 ^ k)) * pw E"
      using A unfolding pG V_def by (simp add: algebra_simps)
    then have "4 * (V * n) \<le> 4 * (m * 2 ^ k)" by (rule of_int_le_cancel_pw)
    then have "V * n \<le> m * 2 ^ k" by simp
    then have "V \<le> q" unfolding q_def using n by (intro int_le_div)
    with Mq have "4 * V \<le> M" by linarith
    then have "real_of_int (4 * V) \<le> real_of_int M" by (simp only: of_int_le_iff)
    then have "real_of_int (4 * V) * pw E \<le> real_of_int M * pw E"
      using pw_pos [of E] by (simp only: mult_le_cancel_right_pos)
    then show ?thesis unfolding NG .
  next
    case False
    then have "G \<le> E + 2" by simp
    then have "pw G \<le> pw (int 2 + E)" by (intro pw_mono) simp
    then have g: "pw G \<le> 4 * pw E" unfolding pw_int_add by simp
    have "N \<le> 2 ^ precision F" using N(2) by simp
    then have "real_of_int N \<le> real_of_int (2 ^ precision F)" by (simp only: of_int_le_iff)
    moreover have "0 \<le> real_of_int N" using N(1) by simp
    ultimately have "real_of_int N * pw G \<le> real_of_int (2 ^ precision F) * (4 * pw E)"
      using g by (intro mult_mono) simp_all
    also have "\<dots> = real_of_int (2 ^ (precision F + 2)) * pw E" by (simp add: power_add)
    also have "\<dots> \<le> real_of_int M * pw E"
    proof -
      have "2 ^ (precision F + 2) \<le> M" using q4 Mq qpos by linarith
      then have "real_of_int (2 ^ (precision F + 2)) \<le> real_of_int M"
        by (simp only: of_int_le_iff)
      then show ?thesis using pw_pos [of E] by (simp only: mult_le_cancel_right_pos)
    qed
    finally show ?thesis .
  qed
  from round_to_lower [OF Mpos p N(2) G this, of "s \<noteq> t"] show ?thesis unfolding f(1) .
qed

lemma root_bits_spec:
  assumes "0 \<le> r" and "r * r \<le> M" and "M < (r + 2 ^ k) * (r + 2 ^ k)"
  shows "0 \<le> root_bits k M r \<and> root_bits k M r * root_bits k M r \<le> M \<and>
    M < (root_bits k M r + 1) * (root_bits k M r + 1)"
  using assms
proof (induction k arbitrary: r)
  case 0
  then show ?case by simp
next
  case (Suc k)
  let ?c = "r + 2 ^ k"
  show ?case
  proof (cases "?c * ?c \<le> M")
    case True
    have c0: "0 \<le> ?c" using Suc.prems(1) by simp
    have "?c + 2 ^ k = r + 2 ^ Suc k" by simp
    then have "M < (?c + 2 ^ k) * (?c + 2 ^ k)" using Suc.prems(3) by (simp only:)
    from Suc.IH [OF c0 True this] show ?thesis using True by (simp add: Let_def)
  next
    case False
    then have "M < ?c * ?c" by simp
    from Suc.IH [OF Suc.prems(1) Suc.prems(2) this] show ?thesis
      using False by (simp add: Let_def)
  qed
qed

lemma integer_root_spec:
  assumes M: "0 < M"
  shows "0 \<le> integer_root M \<and> integer_root M * integer_root M \<le> M \<and>
    M < (integer_root M + 1) * (integer_root M + 1)"
proof -
  let ?k = "nat (bit_length M)"
  have hi: "M < 2 ^ ?k" using bit_length_pos [OF M] by blast
  have "(1::int) \<le> 2 ^ ?k" by simp
  then have "(2::int) ^ ?k * 1 \<le> 2 ^ ?k * 2 ^ ?k" by (intro mult_left_mono) simp_all
  then have "(2::int) ^ ?k \<le> 2 ^ ?k * 2 ^ ?k" by (simp only: mult_1_right)
  with hi have "M < 2 ^ ?k * 2 ^ ?k" by (rule less_le_trans)
  then have "M < (0 + 2 ^ ?k) * (0 + 2 ^ ?k)" by (simp only: add_0)
  moreover have "(0::int) * 0 \<le> M" using M by simp
  ultimately show ?thesis
    unfolding integer_root_def by (intro root_bits_spec) simp_all
qed

lemma square_le_imp_le:
  fixes a b :: int
  assumes "a * a < (b + 1) * (b + 1)" and "0 \<le> b"
  shows "a \<le> b"
proof (rule ccontr)
  assume "\<not> a \<le> b"
  then have "b + 1 \<le> a" by simp
  moreover have "0 \<le> b + 1" using assms(2) by simp
  ultimately have "(b + 1) * (b + 1) \<le> a * a" by (intro mult_mono) simp_all
  with assms(1) show False by simp
qed

lemma fp_sqrt_lower:
  assumes p: "0 < precision F" and m: "0 < m"
    and N: "0 \<le> N" "N < 2 ^ precision F" and G: "e_min F \<le> G"
    and le: "(real_of_int N * pw G) * (real_of_int N * pw G) \<le> real_of_int m * pw e"
  shows "fp_sqrt F (Finite False m e) = Infinity False \<or>
    (\<exists>q' e'. fp_sqrt F (Finite False m e) = Finite False q' e' \<and> 0 \<le> q' \<and>
      real_of_int N * pw G \<le> real_of_int q' * pw e')"
proof -
  define sh where "sh = 2 * (precision F + 2) + (if even e then 0 else 1)"
  define M where "M = m * 2 ^ sh"
  define r where "r = integer_root M"
  define R where "R = 4 * r + (if r * r = M then 0 else 1)"
  define E2 where "E2 = (e - int sh) div 2"
  have s: "fp_sqrt F (Finite False m e) = round_to F False R (E2 - 2)"
    using m unfolding R_def r_def M_def sh_def E2_def by (simp add: Let_def)
  have ev: "even (e - int sh)" unfolding sh_def by simp
  then have e2: "e = int sh + (E2 + E2)" unfolding E2_def by (elim evenE) simp
  have Mpos: "0 < M" unfolding M_def using m by simp
  note root = integer_root_spec [OF Mpos, folded r_def]
  have r0: "0 \<le> r" and rlo: "r * r \<le> M" and rhi: "M < (r + 1) * (r + 1)"
    using root by blast+
  have Mbig: "2 ^ (precision F + 2) * 2 ^ (precision F + 2) \<le> M"
  proof -
    have "precision F + 2 + (precision F + 2) \<le> sh" unfolding sh_def by simp
    then have "(2::int) ^ (precision F + 2 + (precision F + 2)) \<le> 2 ^ sh"
      by (rule power_increasing) simp
    also have "\<dots> \<le> M" unfolding M_def using m by simp
    finally show ?thesis by (simp only: power_add)
  qed
  have rbig: "2 ^ (precision F + 2) \<le> r"
  proof -
    have "2 ^ (precision F + 2) * 2 ^ (precision F + 2) < (r + 1) * (r + 1)"
      using Mbig rhi by linarith
    then show ?thesis using r0 by (rule square_le_imp_le)
  qed
  have rpos: "0 < r"
  proof -
    have "(0::int) < 2 ^ (precision F + 2)" by simp
    with rbig show ?thesis by linarith
  qed
  have Rpos: "0 < R" unfolding R_def using rpos by simp
  have Rr: "4 * r \<le> R" unfolding R_def by simp
  have x: "real_of_int m * pw e = real_of_int M * (pw E2 * pw E2)"
  proof -
    have "pw e = pw (int sh + (E2 + E2))" using e2 by simp
    also have "\<dots> = 2 ^ sh * pw (E2 + E2)" by (simp only: pw_int_add)
    also have "\<dots> = 2 ^ sh * (pw E2 * pw E2)" by (simp only: pw_add)
    finally show ?thesis unfolding M_def by simp
  qed
  have pE: "pw E2 = 4 * pw (E2 - 2)"
  proof -
    have "pw E2 = pw (int 2 + (E2 - 2))" by simp
    also have "\<dots> = 2 ^ 2 * pw (E2 - 2)" by (simp only: pw_int_add)
    finally show ?thesis by simp
  qed
  have "real_of_int N * pw G \<le> real_of_int R * pw (E2 - 2)"
  proof (cases "E2 \<le> G")
    case True
    define V where "V = N * 2 ^ nat (G - E2)"
    have NG: "real_of_int N * pw G = real_of_int V * pw E2"
      unfolding V_def using pw_diff [OF True] by simp
    have "real_of_int (V * V) * (pw E2 * pw E2) \<le> real_of_int M * (pw E2 * pw E2)"
      using le unfolding NG x by (simp add: algebra_simps)
    moreover have "0 < pw E2 * pw E2" by simp
    ultimately have "real_of_int (V * V) \<le> real_of_int M"
      by (simp only: mult_le_cancel_right_pos)
    then have "V * V \<le> M" by (simp only: of_int_le_iff)
    with rhi have "V * V < (r + 1) * (r + 1)" by linarith
    then have "V \<le> r" using r0 by (rule square_le_imp_le)
    with Rr have "4 * V \<le> R" by linarith
    then have "real_of_int (4 * V) \<le> real_of_int R" by (simp only: of_int_le_iff)
    then have "real_of_int (4 * V) * pw (E2 - 2) \<le> real_of_int R * pw (E2 - 2)"
      using pw_pos [of "E2 - 2"] by (simp only: mult_le_cancel_right_pos)
    then show ?thesis unfolding NG pE by simp
  next
    case False
    then have "G \<le> E2" by simp
    then have g: "pw G \<le> pw E2" by (rule pw_mono)
    have "N \<le> 2 ^ (precision F + 2)"
    proof -
      have "(2::int) ^ precision F \<le> 2 ^ (precision F + 2)" by (rule power_increasing) simp_all
      with N(2) show ?thesis by linarith
    qed
    with rbig have "N \<le> r" by linarith
    then have "real_of_int N \<le> real_of_int r" by (simp only: of_int_le_iff)
    moreover have "0 \<le> real_of_int N" using N(1) by simp
    ultimately have "real_of_int N * pw G \<le> real_of_int r * pw E2"
      using g by (intro mult_mono) simp_all
    also have "\<dots> = real_of_int (4 * r) * pw (E2 - 2)" unfolding pE by simp
    also have "\<dots> \<le> real_of_int R * pw (E2 - 2)"
    proof -
      have "real_of_int (4 * r) \<le> real_of_int R" using Rr by (simp only: of_int_le_iff)
      then show ?thesis using pw_pos [of "E2 - 2"] by (simp only: mult_le_cancel_right_pos)
    qed
    finally show ?thesis .
  qed
  from round_to_lower [OF Rpos p N(2) G this, of False] show ?thesis unfolding s .
qed

lemma b32 [simp]:
  "precision binary32 = 24" "e_min binary32 = - 149" "e_max binary32 = 104"
  by (simp_all add: binary32_def)

lemma valof_Finite [simp]:
  "valof (Finite s m e) = (if s then - 1 else 1) * (real_of_int m * pw e)"
  "valof (Infinity s) = 0" "valof NaN = 0"
  by (simp_all add: valof_def)

lemma is_finite_simps [simp]:
  "is_finite (Finite s m e) = (0 \<le> m)" "\<not> is_finite (Infinity s)" "\<not> is_finite NaN"
  by (simp_all add: is_finite_def)

lemma at_least_Finite:
  "at_least j (Finite s m e) \<longleftrightarrow> \<not> s \<and> 0 < m \<and> pw j \<le> real_of_int m * pw e"
proof -
  have p: "0 < pw j" by simp
  show ?thesis
  proof (cases s)
    case True
    have "0 \<le> m \<Longrightarrow> \<not> pw j \<le> - (real_of_int m * pw e)"
    proof -
      assume "0 \<le> m"
      then have "0 \<le> real_of_int m * pw e" by simp
      with p show ?thesis by linarith
    qed
    with True show ?thesis by (auto simp: at_least_def)
  next
    case False
    have "pw j \<le> real_of_int m * pw e \<Longrightarrow> 0 < m"
    proof -
      assume "pw j \<le> real_of_int m * pw e"
      with p have "0 < real_of_int m * pw e" by linarith
      then have "0 < real_of_int m" by (simp add: zero_less_mult_iff)
      then show ?thesis by simp
    qed
    with False show ?thesis by (auto simp: at_least_def)
  qed
qed

lemma at_least_cases:
  assumes "at_least j a"
  obtains "a = Infinity False" | m e where "a = Finite False m e" "0 < m"
    "pw j \<le> real_of_int m * pw e"
proof (cases a)
  case (Finite s m e)
  from assms have "at_least j (Finite s m e)" unfolding Finite .
  then have "\<not> s \<and> 0 < m \<and> pw j \<le> real_of_int m * pw e"
    using at_least_Finite by blast
  then have "s = False" "0 < m" "pw j \<le> real_of_int m * pw e" by simp_all
  with Finite show ?thesis by (intro that(2)) simp_all
next
  case (Infinity s)
  with assms that(1) show ?thesis by (simp add: at_least_def)
next
  case NaN
  with assms show ?thesis by (simp add: at_least_def)
qed

lemma at_most_cases:
  assumes "at_most j a"
  obtains s m e where "a = Finite s m e" "0 \<le> m" "real_of_int m * pw e \<le> pw j"
proof (cases a)
  case (Finite s m e)
  with assms have m: "0 \<le> m" and v: "\<bar>valof (Finite s m e)\<bar> \<le> pw j"
    by (simp_all add: at_most_def)
  have "0 \<le> real_of_int m * pw e" using m by simp
  then have "\<bar>valof (Finite s m e)\<bar> = real_of_int m * pw e" by (cases s) simp_all
  with v have "real_of_int m * pw e \<le> pw j" by simp
  with Finite m that show ?thesis by blast
next
  case (Infinity s)
  with assms show ?thesis by (simp add: at_most_def)
next
  case NaN
  with assms show ?thesis by (simp add: at_most_def)
qed

lemma at_mostI:
  assumes "0 \<le> m" "real_of_int m * pw e \<le> pw j"
  shows "at_most j (Finite s m e)"
proof -
  have "0 \<le> real_of_int m * pw e" using assms(1) by simp
  then have "\<bar>valof (Finite s m e)\<bar> = real_of_int m * pw e" by (cases s) simp_all
  with assms show ?thesis by (simp add: at_most_def)
qed

lemma at_leastI:
  assumes "0 \<le> m" "pw j \<le> real_of_int m * pw e"
  shows "at_least j (Finite False m e)"
  using assms by (simp add: at_least_def)

lemma not_negative_cases:
  assumes "not_negative a"
  obtains "a = Infinity False" | m e where "a = Finite False m e" "0 \<le> m"
  using assms by (cases a) (auto simp: not_negative_def)

lemma not_negativeI: "0 \<le> m \<Longrightarrow> not_negative (Finite False m e)"
  by (simp add: not_negative_def)

lemma round_to_not_negative:
  assumes "0 \<le> M"
  shows "not_negative (round_to binary32 False M E)"
proof (cases "M = 0")
  case True
  then show ?thesis by (simp add: round_to_zero not_negativeI)
next
  case False
  with assms have M: "0 < M" by simp
  have "real_of_int 0 * pw (- 149) \<le> real_of_int M * pw E" using M by simp
  from round_to_lower [of M binary32 0 "- 149" E False, OF M _ _ _ this]
  show ?thesis by (auto simp: not_negative_def)
qed

lemma mul_self_not_negative:
  assumes "is_finite r"
  shows "not_negative (fp_mul binary32 r r)"
proof (cases r)
  case (Finite s m e)
  with assms have "0 \<le> m * m" by simp
  then show ?thesis unfolding Finite by (simp add: round_to_not_negative)
qed (use assms in simp_all)

lemma add_not_negative:
  assumes "not_negative a" "not_negative b"
  shows "not_negative (fp_add binary32 a b)"
proof -
  from assms(1) show ?thesis
  proof (cases rule: not_negative_cases)
    case 1
    from assms(2) show ?thesis
      by (cases rule: not_negative_cases) (simp_all add: 1 not_negative_def)
  next
    case (2 m e)
    from assms(2) show ?thesis
    proof (cases rule: not_negative_cases)
      case 1
      then show ?thesis by (simp add: 2 not_negative_def)
    next
      case (2 n f)
      let ?z = "m * 2 ^ nat (e - min e f) + n * 2 ^ nat (f - min e f)"
      have z: "0 \<le> ?z" using \<open>0 \<le> m\<close> 2 by simp
      have "fp_add binary32 (Finite False m e) (Finite False n f) =
          (if ?z = 0 then Finite False 0 (- 149) else round_to binary32 False ?z (min e f))"
        using z by (simp add: Let_def)
      then show ?thesis
        unfolding \<open>a = Finite False m e\<close> 2
        using round_to_not_negative [OF z] by (simp add: not_negativeI)
    qed
  qed
qed

lemma add_at_least:
  assumes a: "not_negative a" and b: "at_least j b" and j: "- 149 \<le> j"
  shows "at_least j (fp_add binary32 a b)"
proof -
  from b show ?thesis
  proof (cases rule: at_least_cases)
    case 1
    from a show ?thesis
      by (cases rule: not_negative_cases) (simp_all add: 1 at_least_def)
  next
    case (2 n f)
    from a show ?thesis
    proof (cases rule: not_negative_cases)
      case 1
      then show ?thesis by (simp add: 2 at_least_def)
    next
      case (2 m e)
      have n0: "0 \<le> n" using \<open>0 < n\<close> by simp
      have "real_of_int 1 * pw j \<le> real_of_int m * pw e + real_of_int n * pw f"
      proof -
        have "0 \<le> real_of_int m * pw e" using 2 by simp
        with \<open>pw j \<le> real_of_int n * pw f\<close> show ?thesis by simp
      qed
      from fp_add_lower [of binary32 m n 1 j e f, OF _ 2(2) n0 _ _ _ this] j
      show ?thesis
        unfolding \<open>b = Finite False n f\<close> 2 by (auto simp: at_least_def)
    qed
  qed
qed

lemma mul_at_least:
  assumes a: "at_least i a" and b: "at_least j b" and r: "- 149 \<le> i + j"
  shows "at_least (i + j) (fp_mul binary32 a b)"
proof -
  from a show ?thesis
  proof (cases rule: at_least_cases)
    case 1
    from b show ?thesis
      by (cases rule: at_least_cases) (simp_all add: 1 at_least_def)
  next
    case (2 m e)
    note A = 2
    from b show ?thesis
    proof (cases rule: at_least_cases)
      case 1
      then show ?thesis using A by (simp add: at_least_def)
    next
      case (2 n f)
      have "pw i * pw j \<le> (real_of_int m * pw e) * (real_of_int n * pw f)"
        using A(2) A(3) 2(2) 2(3) by (intro mult_mono) simp_all
      then have "real_of_int 1 * pw (i + j) \<le> (real_of_int m * pw e) * (real_of_int n * pw f)"
        by (simp add: powr_add)
      from fp_mul_lower [of binary32 m n 1 "i + j" e f False False, OF _ A(2) 2(2) _ _ this] r
      show ?thesis
        unfolding A(1) 2(1) by (auto simp: at_least_def)
    qed
  qed
qed

lemma sqrt_at_least:
  assumes a: "at_least j a" and h: "2 * h \<le> j" "- 149 \<le> h"
  shows "at_least h (fp_sqrt binary32 a)"
proof -
  from a show ?thesis
  proof (cases rule: at_least_cases)
    case 1
    then show ?thesis by (simp add: at_least_def)
  next
    case (2 m e)
    have "pw h * pw h = pw (h + h)" by (simp only: pw_add)
    also have "\<dots> \<le> pw j" using h(1) by (intro pw_mono) simp
    also note 2(3)
    finally have "(real_of_int 1 * pw h) * (real_of_int 1 * pw h) \<le> real_of_int m * pw e"
      by simp
    from fp_sqrt_lower [of binary32 m 1 h e, OF _ 2(2) _ _ _ this] h(2)
    show ?thesis unfolding 2(1) by (auto simp: at_least_def)
  qed
qed

lemma inverse_at_most:
  assumes a: "at_least h a" and h: "- 127 \<le> h" "h \<le> 149"
  shows "at_most (- h) (fp_div binary32 (Finite False 8388608 (- 23)) a)"
proof -
  from a show ?thesis
  proof (cases rule: at_least_cases)
    case 1
    then show ?thesis by (simp add: at_most_def)
  next
    case (2 n f)
    obtain N G where NG: "pw (- h) = real_of_int N * pw G" and N: "0 \<le> N" "N < 2 ^ 24"
      and G: "- 149 \<le> G" "G \<le> 104"
      using pw_pivot [of binary32 "- h"] h by auto
    have one: "real_of_int 8388608 * pw (- 23) = 1"
      by (simp add: powr_minus powr_numeral)
    have "1 = pw (- h) * pw h" by (simp add: powr_add [symmetric])
    also have "\<dots> \<le> pw (- h) * (real_of_int n * pw f)"
      using 2(3) by (intro mult_left_mono) simp_all
    finally have "real_of_int 8388608 * pw (- 23) \<le> real_of_int N * pw G * (real_of_int n * pw f)"
      unfolding one NG .
    from fp_div_upper [of binary32 8388608 n N G "- 23" f False False, OF _ _ 2(2) _ _ _ this]
      N G
    obtain q e where "fp_div binary32 (Finite False 8388608 (- 23)) (Finite False n f) =
        Finite False q e" "0 \<le> q" "real_of_int q * pw e \<le> real_of_int N * pw G"
      by auto
    then show ?thesis unfolding 2(1) NG [symmetric] by (simp add: at_mostI)
  qed
qed

lemma mul_at_most:
  assumes a: "at_most i a" and b: "at_most j b" and r: "- 149 \<le> i + j" "i + j \<le> 127"
  shows "at_most (i + j) (fp_mul binary32 a b)"
proof -
  from a obtain s m e where A: "a = Finite s m e" "0 \<le> m" "real_of_int m * pw e \<le> pw i"
    by (rule at_most_cases)
  from b obtain t n f where B: "b = Finite t n f" "0 \<le> n" "real_of_int n * pw f \<le> pw j"
    by (rule at_most_cases)
  obtain N G where NG: "pw (i + j) = real_of_int N * pw G" and N: "0 \<le> N" "N < 2 ^ 24"
    and G: "- 149 \<le> G" "G \<le> 104"
    using pw_pivot [of binary32 "i + j"] r by auto
  have "(real_of_int m * pw e) * (real_of_int n * pw f) \<le> pw i * pw j"
    using A B by (intro mult_mono) simp_all
  then have "(real_of_int m * pw e) * (real_of_int n * pw f) \<le> real_of_int N * pw G"
    unfolding NG [symmetric] by (simp add: powr_add)
  from fp_mul_upper [of binary32 m n N G e f s t, OF _ A(2) B(2) _ _ _ _ this] N G
  obtain q e' where "fp_mul binary32 (Finite s m e) (Finite t n f) = Finite (s \<noteq> t) q e'"
    "0 \<le> q" "real_of_int q * pw e' \<le> real_of_int N * pw G"
    by auto
  then show ?thesis unfolding A(1) B(1) NG [symmetric] by (simp add: at_mostI)
qed

lemma add_zero_at_most:
  assumes a: "at_most j a" and r: "- 149 \<le> j" "j \<le> 127"
  shows "at_most j (fp_add binary32 (Finite False 0 (- 149)) a)"
proof -
  from a obtain t n f where A: "a = Finite t n f" "0 \<le> n" "real_of_int n * pw f \<le> pw j"
    by (rule at_most_cases)
  show ?thesis
  proof (cases "n = 0")
    case True
    then show ?thesis unfolding A(1) by (simp add: at_mostI)
  next
    case False
    with A(2) have n: "0 < n" by simp
    let ?g = "min (- 149) f"
    let ?z = "n * 2 ^ nat (f - ?g)"
    have z: "0 < ?z" using n by simp
    have v: "real_of_int ?z * pw ?g = real_of_int n * pw f"
      using pw_diff [of ?g f] by simp
    have s: "fp_add binary32 (Finite False 0 (- 149)) (Finite t n f) =
        round_to binary32 t ?z ?g"
      using z n by (cases t) (simp_all add: Let_def mult_less_0_iff not_less [symmetric])
    obtain N G where NG: "pw j = real_of_int N * pw G" and N: "0 \<le> N" "N < 2 ^ 24"
      and G: "- 149 \<le> G" "G \<le> 104"
      using pw_pivot [of binary32 j] r by auto
    have "real_of_int ?z * pw ?g \<le> real_of_int N * pw G"
      unfolding v NG [symmetric] by (rule A(3))
    from round_to_upper [of ?z binary32 N G ?g t, OF z _ _ _ _ this] N G
    obtain q e where "round_to binary32 t ?z ?g = Finite t q e" "0 \<le> q"
      "real_of_int q * pw e \<le> real_of_int N * pw G"
      by auto
    then show ?thesis unfolding A(1) s NG [symmetric] by (simp add: at_mostI)
  qed
qed

lemma machine_sel:
  "fadd machine = fp_add binary32" "fsub machine = fp_sub binary32"
  "fmul machine = fp_mul binary32" "fdiv machine = fp_div binary32"
  "sqrtf machine = fp_sqrt binary32" "flit machine = fp_of_rat binary32"
  "size_of_float machine = fp_to_size"
  by (simp_all add: machine_def ieee_def)

lemma machine_one: "fp_of_rat binary32 1 = Finite False 8388608 (- 23)"
  by code_simp

lemma machine_zero: "fp_of_rat binary32 0 = Finite False 0 (- 149)"
  by code_simp

lemma kernel_bounded:
  fixes a b c :: int
  assumes eps: "at_least a softening2"
    and a: "- 49 \<le> a" "a \<le> 99"
    and rx: "at_most c (fsub machine (x second) (x first))"
    and ry: "at_most c (fsub machine (y second) (y first))"
    and m: "at_most b (mass second)"
    and r1: "- 149 \<le> b - (3 * a) div 2" "b - (3 * a) div 2 \<le> 127"
    and r2: "- 149 \<le> c + (b - (3 * a) div 2)" "c + (b - (3 * a) div 2) \<le> 127"
  shows "at_most (c + (b - (3 * a) div 2))
      (fst (calculate_newton_gravity_acceleration machine softening2 first second))"
    and "at_most (c + (b - (3 * a) div 2))
      (snd (calculate_newton_gravity_acceleration machine softening2 first second))"
    and "at_least ((3 * a) div 2)
      (let r_x = fsub machine (x second) (x first);
           r_y = fsub machine (y second) (y first);
           d2 = fadd machine (fadd machine (fmul machine r_x r_x) (fmul machine r_y r_y))
                  softening2
       in sqrtf machine (fmul machine (fmul machine d2 d2) d2))"
proof -
  let ?h = "(3 * a) div 2"
  let ?rx = "fp_sub binary32 (x second) (x first)"
  let ?ry = "fp_sub binary32 (y second) (y first)"
  let ?d2 = "fp_add binary32 (fp_add binary32 (fp_mul binary32 ?rx ?rx) (fp_mul binary32 ?ry ?ry))
               softening2"
  let ?cube = "fp_mul binary32 (fp_mul binary32 ?d2 ?d2) ?d2"
  let ?root = "fp_sqrt binary32 ?cube"
  let ?inv = "fp_div binary32 (Finite False 8388608 (- 23)) ?root"
  let ?scale = "fp_mul binary32 (mass second) ?inv"
  have fx: "is_finite ?rx" and fy: "is_finite ?ry"
    using rx ry by (simp_all add: at_most_def machine_sel)
  have "not_negative (fp_add binary32 (fp_mul binary32 ?rx ?rx) (fp_mul binary32 ?ry ?ry))"
    using fx fy by (intro add_not_negative mul_self_not_negative)
  then have d2: "at_least a ?d2" using eps a by (intro add_at_least) simp_all
  have "at_least (a + a) (fp_mul binary32 ?d2 ?d2)" using d2 a by (intro mul_at_least) simp_all
  then have cube: "at_least (a + a + a) ?cube" using d2 a by (intro mul_at_least) simp_all
  have h2: "2 * ?h \<le> a + a + a" by presburger
  have h_lo: "- 149 \<le> ?h" "- 127 \<le> ?h" using a(1) by presburger+
  have h_hi: "?h \<le> 149" using a(2) by presburger
  have root: "at_least ?h ?root" using cube h2 h_lo(1) by (rule sqrt_at_least)
  have inv: "at_most (- ?h) ?inv" using root h_lo(2) h_hi by (rule inverse_at_most)
  have "at_most (b + - ?h) ?scale" using m inv r1 by (intro mul_at_most) simp_all
  then have scale: "at_most (b - ?h) ?scale" by simp
  have px: "at_most (c + (b - ?h)) (fp_mul binary32 ?rx ?scale)"
    using rx scale r2 by (intro mul_at_most) (simp_all add: machine_sel)
  have py: "at_most (c + (b - ?h)) (fp_mul binary32 ?ry ?scale)"
    using ry scale r2 by (intro mul_at_most) (simp_all add: machine_sel)
  have ax: "at_most (c + (b - ?h)) (fp_add binary32 (Finite False 0 (- 149))
      (fp_mul binary32 ?rx ?scale))"
    using px r2 by (intro add_zero_at_most) simp_all
  have ay: "at_most (c + (b - ?h)) (fp_add binary32 (Finite False 0 (- 149))
      (fp_mul binary32 ?ry ?scale))"
    using py r2 by (intro add_zero_at_most) simp_all
  show "at_most (c + (b - ?h))
      (fst (calculate_newton_gravity_acceleration machine softening2 first second))"
    using ax
    by (simp add: calculate_newton_gravity_acceleration_def Let_def machine_one machine_zero
        machine_sel)
  show "at_most (c + (b - ?h))
      (snd (calculate_newton_gravity_acceleration machine softening2 first second))"
    using ay
    by (simp add: calculate_newton_gravity_acceleration_def Let_def machine_one machine_zero
        machine_sel)
  show "at_least ?h
      (let r_x = fsub machine (x second) (x first);
           r_y = fsub machine (y second) (y first);
           d2 = fadd machine (fadd machine (fmul machine r_x r_x) (fmul machine r_y r_y))
                  softening2
       in sqrtf machine (fmul machine (fmul machine d2 d2) d2))"
    using root by (simp add: Let_def machine_sel)
qed

lemma fp_to_size_floor:
  assumes q: "\<lfloor>real_of_int m * pw e\<rfloor> < 2 ^ 64"
  shows "fp_to_size (Finite False m e) = Some (word_of_int \<lfloor>real_of_int m * pw e\<rfloor>)"
proof (cases "0 \<le> e")
  case True
  have "pw e = 2 ^ nat e"
    using True by (simp add: powr_realpow [symmetric])
  then have "real_of_int m * pw e = real_of_int (m * 2 ^ nat e)" by simp
  then have f: "\<lfloor>real_of_int m * pw e\<rfloor> = m * 2 ^ nat e"
    by (simp only: floor_of_int)
  show ?thesis using q True unfolding f by (simp add: Let_def)
next
  case False
  have "pw e = 1 / 2 ^ nat (- e)"
    using False by (simp add: powr_realpow [symmetric] powr_minus divide_simps)
  then have "real_of_int m * pw e = real_of_int m / real_of_int (2 ^ nat (- e))" by simp
  then have f: "\<lfloor>real_of_int m * pw e\<rfloor> = m div 2 ^ nat (- e)"
    by (simp only: floor_divide_of_int_eq)
  show ?thesis using q False unfolding f by (simp add: Let_def)
qed

lemma fp_to_size_unat:
  assumes m: "0 \<le> m" and q: "\<lfloor>real_of_int m * pw e\<rfloor> < 2 ^ 64"
  shows "\<exists>k. fp_to_size (Finite False m e) = Some k \<and>
    unat k = nat \<lfloor>real_of_int m * pw e\<rfloor>"
proof -
  let ?t = "\<lfloor>real_of_int m * pw e\<rfloor>"
  have s: "fp_to_size (Finite False m e) = Some (word_of_int ?t)"
    by (rule fp_to_size_floor [OF q])
  have "0 \<le> real_of_int m * pw e" using m by simp
  then have t0: "0 \<le> ?t" by simp
  have "unat (word_of_int ?t :: size_t) = nat ?t"
    using t0 q by (simp add: unat_eq_nat_uint uint_word_of_int take_bit_int_eq_self)
  with s show ?thesis by blast
qed



lemma quotient_floor:
  assumes tp: "is_finite tp" and dt: "is_finite dt"
    and q: "0 \<le> valof tp" "0 < valof dt" "valof tp / valof dt < 2 ^ 24 - 1"
  shows "\<exists>k. fp_to_size (fp_div binary32 tp dt) = Some k \<and>
    unat k = nat \<lfloor>valof (fp_div binary32 tp dt)\<rfloor> \<and>
    nat \<lfloor>valof tp / valof dt\<rfloor> \<le> unat k \<and> unat k \<le> nat \<lfloor>valof tp / valof dt\<rfloor> + 1"
proof -
  obtain s m e where TP: "tp = Finite s m e" and m: "0 \<le> m"
    using tp by (cases tp) simp_all
  obtain t n f where DT: "dt = Finite t n f" and n: "0 \<le> n"
    using dt by (cases dt) simp_all
  have t: "\<not> t" and npos: "0 < n"
  proof -
    have "0 \<le> real_of_int n * pw f" using n by simp
    with q(2) show "\<not> t" unfolding DT by (cases t) simp_all
    with q(2) have "0 < real_of_int n * pw f" unfolding DT by simp
    then have "0 < real_of_int n" by (simp add: zero_less_mult_iff)
    then show "0 < n" by simp
  qed
  have dv: "valof dt = real_of_int n * pw f" unfolding DT using t by simp
  have dpos: "0 < real_of_int n * pw f" using q(2) unfolding dv .
  show ?thesis
  proof (cases "m = 0")
    case True
    have "fp_to_size (fp_div binary32 tp dt) = Some 0"
      unfolding TP DT using npos True by (simp add: Let_def)
    moreover have "valof (fp_div binary32 tp dt) = 0"
      unfolding TP DT using npos True by simp
    moreover have "valof tp = 0" unfolding TP using True by simp
    ultimately show ?thesis by simp
  next
    case False
    with m have mpos: "0 < m" by simp
    have s: "\<not> s"
    proof
      assume s
      have "0 < real_of_int m * pw e" using mpos by simp
      with \<open>s\<close> q(1) show False unfolding TP by simp
    qed
    have tv: "valof tp = real_of_int m * pw e" unfolding TP using s by simp
    let ?x = "valof tp / valof dt"
    let ?N = "\<lfloor>?x\<rfloor>"
    have x0: "0 \<le> ?x" using q by simp
    have N0: "0 \<le> ?N" using x0 by simp
    have "?N \<le> ?x" by simp
    have Nx: "real_of_int ?N \<le> ?x" by simp
    have xN: "?x \<le> real_of_int (?N + 1)" by linarith
    have "real_of_int ?N < 2 ^ 24 - 1" using Nx q(3) by linarith
    then have "real_of_int ?N < real_of_int (2 ^ 24 - 1)" by simp
    then have N1: "?N + 1 < 2 ^ 24" by (simp only: of_int_less_iff)
    have N2: "?N < 2 ^ 24" using N1 by simp
    have p0: "pw 0 = 1" by simp
    have "real_of_int ?N * (real_of_int n * pw f) \<le> real_of_int m * pw e"
      using Nx dpos unfolding tv dv by (simp only: pos_le_divide_eq)
    then have lo: "real_of_int ?N * pw 0 * (real_of_int n * pw f) \<le> real_of_int m * pw e"
      unfolding p0 by simp
    have "real_of_int m * pw e \<le> real_of_int (?N + 1) * (real_of_int n * pw f)"
      using xN dpos unfolding tv dv by (simp only: pos_divide_le_eq)
    then have hi: "real_of_int m * pw e \<le>
        real_of_int (?N + 1) * pw 0 * (real_of_int n * pw f)"
      unfolding p0 by simp
    from fp_div_upper [of binary32 m n "?N + 1" 0 e f False False, OF _ mpos npos _ _ _ hi] N1
    obtain q' e' where r: "fp_div binary32 (Finite False m e) (Finite False n f) =
        Finite False q' e'" and q0: "0 \<le> q'"
      and up: "real_of_int q' * pw e' \<le> real_of_int (?N + 1)"
      by auto
    from fp_div_lower [where F = binary32 and m = m and n = n and N = ?N and G = 0 and e = e
        and f = f and s = False and t = False, OF _ mpos npos N0 _ _ lo] N2 r
    have dn: "real_of_int ?N \<le> real_of_int q' * pw e'" by auto
    let ?v = "real_of_int q' * pw e'"
    have f1: "?N \<le> \<lfloor>?v\<rfloor>" using dn by (simp add: le_floor_iff)
    have f2: "\<lfloor>?v\<rfloor> \<le> ?N + 1" using up by (simp add: floor_le_iff) 
    have "\<lfloor>?v\<rfloor> < 2 ^ 24" using f2 N1 by linarith
    then have "\<lfloor>?v\<rfloor> < 2 ^ 64" by (rule less_trans) simp
    from fp_to_size_unat [OF q0 this] obtain k where
      k: "fp_to_size (Finite False q' e') = Some k" "unat k = nat \<lfloor>?v\<rfloor>" by blast
    have "fp_div binary32 tp dt = Finite False q' e'" unfolding TP DT using s t r by simp
    moreover have "nat ?N \<le> nat \<lfloor>?v\<rfloor>" using f1 by simp
    moreover have "nat \<lfloor>?v\<rfloor> \<le> nat ?N + 1" using f2 N0 by linarith
    ultimately show ?thesis using k by simp
  qed
qed

subsection \<open>The C library over binary32\<close>

lemma fp_literals:
  "fp_of_rat binary32 (1 / 100) = Finite False 10737418 (- 30)"
  "fp_of_rat binary32 (1 / 10) = Finite False 13421773 (- 27)"
  "fp_of_rat binary32 (1 / 2) = Finite False 8388608 (- 24)"
  "fp_of_rat binary32 (- (1 / 2)) = Finite True 8388608 (- 24)"
  "fp_of_rat binary32 (- 1) = Finite True 8388608 (- 23)"
  "fp_of_rat binary32 (13 / 10) = Finite False 10905190 (- 23)"
  by code_simp+

lemma fp_libc_sel:
  "strtof fp_libc ''0.01'' = Finite False 10737418 (- 30)"
  "strtof fp_libc ''0.1'' = Finite False 13421773 (- 27)"
  "strtof fp_libc ''0.5'' = Finite False 8388608 (- 24)"
  "strtof fp_libc ''-0.5'' = Finite True 8388608 (- 24)"
  "strtof fp_libc ''1'' = Finite False 8388608 (- 23)"
  "strtof fp_libc ''-1'' = Finite True 8388608 (- 23)"
  "strtof fp_libc ''1.3'' = Finite False 10905190 (- 23)"
  "strtol fp_libc ''1'' = 1" "strtol fp_libc ''2'' = 2"
  "malloc_ok fp_libc n"
  by (simp_all add: fp_libc_def fp_literals machine_one)

lemma fp_quotients:
  "fp_div binary32 (Finite False 8388608 (- 23)) (Finite False 13421773 (- 27)) =
     Finite False 10485760 (- 20)"
  "fp_div binary32 (Finite False 10905190 (- 23)) (Finite False 13421773 (- 27)) =
     Finite False 13631487 (- 20)"
  "fp_div binary32 (Finite True 8388608 (- 23)) (Finite True 8388608 (- 24)) =
     Finite False 8388608 (- 22)"
  "fp_div binary32 (Finite False 8388608 (- 23)) (Finite False 8388608 (- 24)) =
     Finite False 8388608 (- 22)"
  "fp_to_size (Finite False 10485760 (- 20)) = Some 10"
  "fp_to_size (Finite False 13631487 (- 20)) = Some 12"
  "fp_to_size (Finite False 8388608 (- 22)) = Some 2"
  by code_simp+

lemma powers_of_two:
  "(2::real) powr - 20 = 1 / 1048576" "(2::real) powr - 22 = 1 / 4194304"
  "(2::real) powr - 23 = 1 / 8388608" "(2::real) powr - 24 = 1 / 16777216"
  "(2::real) powr - 25 = 1 / 33554432" "(2::real) powr - 27 = 1 / 134217728"
  "(2::real) powr - 30 = 1 / 1073741824" "(2::real) powr - 53 = 1 / 9007199254740992"
  "(2::real) powr 10 = 1024"
  by (simp_all add: powr_minus powr_numeral divide_simps)

section \<open>The claims\<close>

subsection \<open>C1: a body count that the ranks do not divide\<close>

text \<open>
  C1, as amended. When the body count is not a multiple of the number of ranks (with six
  arguments or more, allocations that succeed, an iteration count that converts and a
  padded count whose byte size fits \<open>size_t\<close>), the run ends at the assertion
  \<open>body_count % world_size == 0\<close>, before the loop: no broadcast, no force evaluation, no
  integration and no line of accelerations. By then rank 0 has generated the bodies and
  printed the whole first phase, the header and four lines per body; every other rank
  stops at the same assertion having printed nothing.
\<close>

theorem abort_on_indivisible_count:
  fixes N its :: size_t
  assumes argv: "6 \<le> length argv"
    and W: "0 < W" "W < 2 ^ 31"
    and N: "N = word_of_int (strtol E (argv ! 3))"
    and mem: "\<forall>n. malloc_ok E n"
    and its: "size_of_float A (fdiv A (strtof E (argv ! 1)) (strtof E (argv ! 2))) = Some its"
    and nd: "unat N mod W \<noteq> 0"
    and big: "28 * (unat N + W) < 2 ^ 64"
  shows "\<exists>G n.
    generate_debug_data A E (strtof E (argv ! 4))
      (if 6 < length argv then strtof E (argv ! 6) else flit A 100)
      (replicate (unat N + (W - unat N mod W)) (junk_body E)) N = Some (G, n) \<and>
    main A E W argv =
      \<lparr>stdout = print_snapshot N (strtof E (argv ! 1)) (strtof E (argv ! 2)) G,
       stderr = [], status = Aborted Count_Divisible\<rparr> \<and>
    startup A E W 0 argv =
      Stopped \<lparr>stdout = print_snapshot N (strtof E (argv ! 1)) (strtof E (argv ! 2)) G,
               stderr = [], status = Aborted Count_Divisible\<rparr> \<and>
    (\<forall>rank. startup A E W (Suc rank) argv =
       Stopped \<lparr>stdout = [], stderr = [], status = Aborted Count_Divisible\<rparr>)"
proof -
  have W64: "W < 2 ^ 64" using W(2) by (rule less_trans) simp
  obtain G n where G: "generate_debug_data A E (strtof E (argv ! 4))
      (if 6 < length argv then strtof E (argv ! 6) else flit A 100)
      (replicate (unat N + (W - unat N mod W)) (junk_body E)) N = Some (G, n)"
    and s0: "startup A E W 0 argv =
      Stopped \<lparr>stdout = (if (0::nat) = 0
                          then print_snapshot N (strtof E (argv ! 1)) (strtof E (argv ! 2)) G
                          else []),
               stderr = [], status = Aborted Count_Divisible\<rparr>"
    using startup_stopped [OF argv W(1) W64 N mem its nd big, of 0] by blast
  have sr: "startup A E W (Suc rank) argv =
      Stopped \<lparr>stdout = [], stderr = [], status = Aborted Count_Divisible\<rparr>" for rank
    using startup_stopped [OF argv W(1) W64 N mem its nd big, of "Suc rank"] by auto
  have "main A E W argv =
      \<lparr>stdout = print_snapshot N (strtof E (argv ! 1)) (strtof E (argv ! 2)) G,
       stderr = [], status = Aborted Count_Divisible\<rparr>"
    by (simp add: main_def s0)
  with G sr s0 show ?thesis by auto
qed

text \<open>The theorem at three bodies on two ranks.\<close>

theorem abort_on_indivisible_count_witness:
  "\<exists>G n.
    generate_debug_data ideal example_libc (Some 1) (Some 100)
      (replicate 4 (junk_body example_libc)) 3 = Some (G, n) \<and>
    main ideal example_libc 2 [''nbody'', ''1'', ''0.5'', ''3'', ''1'', ''1''] =
      \<lparr>stdout = print_snapshot 3 (Some 1) (Some (1 / 2)) G,
       stderr = [], status = Aborted Count_Divisible\<rparr> \<and>
    startup ideal example_libc 2 0 [''nbody'', ''1'', ''0.5'', ''3'', ''1'', ''1''] =
      Stopped \<lparr>stdout = print_snapshot 3 (Some 1) (Some (1 / 2)) G,
               stderr = [], status = Aborted Count_Divisible\<rparr> \<and>
    (\<forall>rank. startup ideal example_libc 2 (Suc rank)
         [''nbody'', ''1'', ''0.5'', ''3'', ''1'', ''1''] =
       Stopped \<lparr>stdout = [], stderr = [], status = Aborted Count_Divisible\<rparr>)"
  using abort_on_indivisible_count
    [of "[''nbody'', ''1'', ''0.5'', ''3'', ''1'', ''1'']" 2 3 example_libc ideal 2]
  by (simp add: ideal_size_def)

text \<open>
  C1 as stated fails: with three bodies on two ranks the run is aborted by the assertion
  after rank 0 has printed fifteen lines, the header first.
\<close>

theorem output_before_abort:
  "status (main ideal example_libc 2 [''nbody'', ''1'', ''0.5'', ''3'', ''1'', ''1'']) =
     Aborted Count_Divisible \<and>
   length (stdout (main ideal example_libc 2 [''nbody'', ''1'', ''0.5'', ''3'', ''1'', ''1''])) = 15 \<and>
   take 3 (stdout (main ideal example_libc 2 [''nbody'', ''1'', ''0.5'', ''3'', ''1'', ''1''])) =
     [Count 3, Scalar (Some 1), Scalar (Some (1 / 2))]"
proof -
  obtain G where
    "main ideal example_libc 2 [''nbody'', ''1'', ''0.5'', ''3'', ''1'', ''1''] =
      \<lparr>stdout = print_snapshot 3 (Some 1) (Some (1 / 2)) G,
       stderr = [], status = Aborted Count_Divisible\<rparr>"
    using startup_stopped
      [of "[''nbody'', ''1'', ''0.5'', ''3'', ''1'', ''1'']" 2 3 example_libc ideal 2 0]
    by (auto simp: ideal_size_def main_def)
  then show ?thesis
    by simp
qed

subsection \<open>C2: two bodies, one step, one rank or two\<close>

text \<open>
  C2. Two bodies of mass 1 at \<open>(0, 0)\<close> and \<open>(1, 0)\<close>, at rest, with softening length 0 and
  a step of \<open>0.01\<close>: one iteration of the loop on one rank (holding both bodies) and on two
  ranks (holding one body each) leaves rank 0 with the same bodies and the same recorded
  accelerations, in exact arithmetic and in binary32 alike. Body 0 is accelerated by
  \<open>(1, 0)\<close>, body 1 by \<open>(-1, 0)\<close>; after the step body 0 has velocity \<open>(0.01, 0)\<close> and position
  \<open>(0.0001, 0)\<close>, exactly in exact arithmetic, and in binary32 as the \<open>float\<close>s nearest to
  these two numbers.
\<close>

theorem two_bodies_one_step:
  "map_option (\<lambda>(bodies, subs, accelerations, next_acceleration).
       (bodies, accelerations, next_acceleration))
     (simulation_loop ideal (fmul ideal (Some 0) (Some 0)) (Some (1 / 100)) 2 (2 div of_nat 1) [0]
        (two_bodies, replicate 1 (replicate 2 (junk_body example_libc)),
         replicate 4 (junk example_libc), 0)) =
     Some (two_bodies_after, [Some 1, Some 0, Some (- 1), Some 0], 4) \<and>
   map_option (\<lambda>(bodies, subs, accelerations, next_acceleration).
       (bodies, accelerations, next_acceleration))
     (simulation_loop ideal (fmul ideal (Some 0) (Some 0)) (Some (1 / 100)) 2 (2 div of_nat 2) [0]
        (two_bodies, replicate 2 (replicate 1 (junk_body example_libc)),
         replicate 4 (junk example_libc), 0)) =
     Some (two_bodies_after, [Some 1, Some 0, Some (- 1), Some 0], 4) \<and>
   ax (two_bodies_after ! 0) = Some 1 \<and> ay (two_bodies_after ! 0) = Some 0 \<and>
   ax (two_bodies_after ! 1) = Some (- 1) \<and> ay (two_bodies_after ! 1) = Some 0 \<and>
   vx (two_bodies_after ! 0) = Some (1 / 100) \<and> vy (two_bodies_after ! 0) = Some 0 \<and>
   x (two_bodies_after ! 0) = Some (1 / 10000) \<and> y (two_bodies_after ! 0) = Some 0 \<and>
   map_option (\<lambda>(bodies, subs, accelerations, next_acceleration).
       (bodies, accelerations, next_acceleration))
     (simulation_loop machine (fmul machine (flit machine 0) (flit machine 0))
        (flit machine (1 / 100)) 2 (2 div of_nat 1) [0]
        (fp_two_bodies, replicate 1 (replicate 2 coincident), replicate 4 NaN, 0)) =
     Some (fp_two_bodies_after,
           [flit machine 1, flit machine 0, fsub machine (flit machine 0) (flit machine 1),
            flit machine 0], 4) \<and>
   map_option (\<lambda>(bodies, subs, accelerations, next_acceleration).
       (bodies, accelerations, next_acceleration))
     (simulation_loop machine (fmul machine (flit machine 0) (flit machine 0))
        (flit machine (1 / 100)) 2 (2 div of_nat 2) [0]
        (fp_two_bodies, replicate 2 (replicate 1 coincident), replicate 4 NaN, 0)) =
     Some (fp_two_bodies_after,
           [flit machine 1, flit machine 0, fsub machine (flit machine 0) (flit machine 1),
            flit machine 0], 4) \<and>
   map mass fp_two_bodies = [flit machine 1, flit machine 1] \<and>
   map x fp_two_bodies = [flit machine 0, flit machine 1] \<and>
   map y fp_two_bodies = [flit machine 0, flit machine 0] \<and>
   map vx fp_two_bodies = [flit machine 0, flit machine 0] \<and>
   map vy fp_two_bodies = [flit machine 0, flit machine 0] \<and>
   ax (fp_two_bodies_after ! 0) = flit machine 1 \<and>
   ay (fp_two_bodies_after ! 0) = flit machine 0 \<and>
   ax (fp_two_bodies_after ! 1) = fsub machine (flit machine 0) (flit machine 1) \<and>
   ay (fp_two_bodies_after ! 1) = flit machine 0 \<and>
   vx (fp_two_bodies_after ! 0) = flit machine (1 / 100) \<and>
   vy (fp_two_bodies_after ! 0) = flit machine 0 \<and>
   x (fp_two_bodies_after ! 0) = flit machine (1 / 10000) \<and>
   y (fp_two_bodies_after ! 0) = flit machine 0"
proof -
  have rec: "recorded two_bodies_after = [Some 1, Some 0, Some (- 1), Some 0]"
    by (simp add: recorded_def two_bodies_after_def)
  have l: "length two_bodies = unat (2 :: size_t)" by (simp add: two_bodies_def)
  have e: "fmul ideal (Some 0) (Some 0) = Some 0" by simp
  have one: "iteration ideal (Some 0) (Some (1 / 100)) 2 (2 div of_nat 1)
        (two_bodies, replicate 1 (replicate 2 (junk_body example_libc)),
         replicate 4 (junk example_libc), 0) =
      Some (two_bodies_after, slices ideal (Some 0) 2 1 two_bodies,
            [Some 1, Some 0, Some (- 1), Some 0], 4)"
    using iteration_result [of 1 2 two_bodies "replicate 1 (replicate 2 (junk_body example_libc))"
        0 "replicate 4 (junk example_libc)" ideal "Some 0" "Some (1 / 100)"] l
    by (simp add: two_bodies_advance rec list_all_iff)
  have two: "iteration ideal (Some 0) (Some (1 / 100)) 2 (2 div of_nat 2)
        (two_bodies, replicate 2 (replicate 1 (junk_body example_libc)),
         replicate 4 (junk example_libc), 0) =
      Some (two_bodies_after, slices ideal (Some 0) 2 2 two_bodies,
            [Some 1, Some 0, Some (- 1), Some 0], 4)"
    using iteration_result [of 2 2 two_bodies "replicate 2 (replicate 1 (junk_body example_libc))"
        0 "replicate 4 (junk example_libc)" ideal "Some 0" "Some (1 / 100)"] l
    by (simp add: two_bodies_advance rec list_all_iff)
  have exact: "map_option (\<lambda>(bodies, subs, accelerations, next_acceleration).
       (bodies, accelerations, next_acceleration))
     (simulation_loop ideal (fmul ideal (Some 0) (Some 0)) (Some (1 / 100)) 2 (2 div of_nat 1) [0]
        (two_bodies, replicate 1 (replicate 2 (junk_body example_libc)),
         replicate 4 (junk example_libc), 0)) =
     Some (two_bodies_after, [Some 1, Some 0, Some (- 1), Some 0], 4) \<and>
   map_option (\<lambda>(bodies, subs, accelerations, next_acceleration).
       (bodies, accelerations, next_acceleration))
     (simulation_loop ideal (fmul ideal (Some 0) (Some 0)) (Some (1 / 100)) 2 (2 div of_nat 2) [0]
        (two_bodies, replicate 2 (replicate 1 (junk_body example_libc)),
         replicate 4 (junk example_libc), 0)) =
     Some (two_bodies_after, [Some 1, Some 0, Some (- 1), Some 0], 4)"
    unfolding e simulation_loop.simps one two by simp
  have exact_values: "ax (two_bodies_after ! 0) = Some 1 \<and> ay (two_bodies_after ! 0) = Some 0 \<and>
   ax (two_bodies_after ! 1) = Some (- 1) \<and> ay (two_bodies_after ! 1) = Some 0 \<and>
   vx (two_bodies_after ! 0) = Some (1 / 100) \<and> vy (two_bodies_after ! 0) = Some 0 \<and>
   x (two_bodies_after ! 0) = Some (1 / 10000) \<and> y (two_bodies_after ! 0) = Some 0"
    by (simp add: two_bodies_after_def)
  have frec: "recorded fp_two_bodies_after =
      [Finite False 8388608 (- 23), Finite False 0 (- 149), Finite True 8388608 (- 23),
       Finite False 0 (- 149)]"
    by (simp add: recorded_def fp_two_bodies_after_def)
  have rounded: "map_option (\<lambda>(bodies, subs, accelerations, next_acceleration).
       (bodies, accelerations, next_acceleration))
     (simulation_loop machine (fmul machine (flit machine 0) (flit machine 0))
        (flit machine (1 / 100)) 2 (2 div of_nat 1) [0]
        (fp_two_bodies, replicate 1 (replicate 2 coincident), replicate 4 NaN, 0)) =
     Some (fp_two_bodies_after,
           [flit machine 1, flit machine 0, fsub machine (flit machine 0) (flit machine 1),
            flit machine 0], 4) \<and>
   map_option (\<lambda>(bodies, subs, accelerations, next_acceleration).
       (bodies, accelerations, next_acceleration))
     (simulation_loop machine (fmul machine (flit machine 0) (flit machine 0))
        (flit machine (1 / 100)) 2 (2 div of_nat 2) [0]
        (fp_two_bodies, replicate 2 (replicate 1 coincident), replicate 4 NaN, 0)) =
     Some (fp_two_bodies_after,
           [flit machine 1, flit machine 0, fsub machine (flit machine 0) (flit machine 1),
            flit machine 0], 4)"
    unfolding machine_literals machine_operations simulation_loop.simps
    using fp_two_bodies_iteration [of 1] fp_two_bodies_iteration [of 2]
    by (simp add: frec)
  have rounded_values: "map mass fp_two_bodies = [flit machine 1, flit machine 1] \<and>
   map x fp_two_bodies = [flit machine 0, flit machine 1] \<and>
   map y fp_two_bodies = [flit machine 0, flit machine 0] \<and>
   map vx fp_two_bodies = [flit machine 0, flit machine 0] \<and>
   map vy fp_two_bodies = [flit machine 0, flit machine 0] \<and>
   ax (fp_two_bodies_after ! 0) = flit machine 1 \<and>
   ay (fp_two_bodies_after ! 0) = flit machine 0 \<and>
   ax (fp_two_bodies_after ! 1) = fsub machine (flit machine 0) (flit machine 1) \<and>
   ay (fp_two_bodies_after ! 1) = flit machine 0 \<and>
   vx (fp_two_bodies_after ! 0) = flit machine (1 / 100) \<and>
   vy (fp_two_bodies_after ! 0) = flit machine 0 \<and>
   x (fp_two_bodies_after ! 0) = flit machine (1 / 10000) \<and>
   y (fp_two_bodies_after ! 0) = flit machine 0"
    unfolding machine_literals machine_operations
    by (simp add: fp_two_bodies_def fp_two_bodies_after_def)
  from exact exact_values rounded rounded_values show ?thesis by (simp only: simp_thms)
qed

subsection \<open>C3: the force kernel\<close>



subsection \<open>C4: the integrator\<close>

text \<open>
  C4. In any arithmetic, \<open>integrate\<close> sets the velocity to the old velocity plus the
  acceleration times the step, and then the position to the old position plus the new
  velocity times the step; it leaves the acceleration (and the mass) as they were. In
  exact arithmetic the new position is therefore \<open>p + (v + a \<sqdot> dt) \<sqdot> dt\<close>, not \<open>p + v \<sqdot> dt\<close>.
\<close>

theorem integrate_semi_implicit:
  "vx (integrate A b dt) = fadd A (vx b) (fmul A (ax b) dt) \<and>
   vy (integrate A b dt) = fadd A (vy b) (fmul A (ay b) dt) \<and>
   x (integrate A b dt) = fadd A (x b) (fmul A (vx (integrate A b dt)) dt) \<and>
   y (integrate A b dt) = fadd A (y b) (fmul A (vy (integrate A b dt)) dt) \<and>
   ax (integrate A b dt) = ax b \<and> ay (integrate A b dt) = ay b \<and>
   mass (integrate A b dt) = mass b \<and>
   x (integrate ideal (c\<lparr>x := Some p, vx := Some v, ax := Some a\<rparr>) (Some h)) =
     Some (p + (v + a * h) * h)"
  by (simp add: integrate_def Let_def)

subsection \<open>C5: a body alone\<close>

text \<open>
  C5. In any arithmetic, the loop over \<open>j\<close> skips the pair of a body with itself, so with
  one body the compute phase stores that body with the acceleration \<open>(0.0f, 0.0f)\<close>, no
  operation applied; and a run with one body on one rank prints, after the snapshot, the
  line \<open>0 0\<close> once per iteration and nothing else.
\<close>

theorem sole_body_never_accelerates:
  assumes argv: "6 \<le> length argv"
    and N: "word_of_int (strtol E (argv ! 3)) = (1 :: size_t)"
    and mem: "\<forall>n. malloc_ok E n"
    and its: "size_of_float A (fdiv A (strtof E (argv ! 1)) (strtof E (argv ! 2))) = Some its"
    and ents: "unat its < 2 ^ 61"
  shows "compute_phase A e 1 (1 div of_nat 1) 0 [b] [s] = Some [b\<lparr>ax := flit A 0, ay := flit A 0\<rparr>] \<and>
    (\<exists>G. main A E 1 argv =
      \<lparr>stdout = print_snapshot 1 (strtof E (argv ! 1)) (strtof E (argv ! 2)) G @
         replicate (unat its) (Vector (flit A 0) (flit A 0)),
       stderr = [], status = Returned 0\<rparr>)"
proof -
  have "compute_phase A e 1 (1 div of_nat 1) 0 [b] [s] =
      Some (map (accelerated A e 1 [b]) [0 * (unat (1 :: size_t) div 1) ..<
         0 * (unat (1 :: size_t) div 1) + unat (1 :: size_t) div 1])"
    by (intro compute_phase_result) simp_all
  then have a: "compute_phase A e 1 (1 div of_nat 1) 0 [b] [s] =
      Some [b\<lparr>ax := flit A 0, ay := flit A 0\<rparr>]"
    by (simp add: accelerated_def sole_total)
  have "\<exists>G n.
    generate_debug_data A E (strtof E (argv ! 4))
      (if 6 < length argv then strtof E (argv ! 6) else flit A 100)
      (replicate (unat (1 :: size_t)) (junk_body E)) 1 = Some (G, n) \<and>
    length G = unat (1 :: size_t) \<and>
    main A E 1 argv =
      \<lparr>stdout = print_snapshot 1 (strtof E (argv ! 1)) (strtof E (argv ! 2)) G @
         lines_of (history A (fmul A (strtof E (argv ! 5)) (strtof E (argv ! 5)))
                    (strtof E (argv ! 2)) 1 (unat its) G),
       stderr = [], status = Returned 0\<rparr>"
    using ents by (intro main_run [OF argv _ N [symmetric] mem its]) simp_all
  then show ?thesis using a by (auto simp: sole_history lines_of_replicate)
qed

text \<open>The theorem at one body, period 1 and step \<open>1/2\<close>: two iterations.\<close>

theorem sole_body_never_accelerates_witness:
  "compute_phase ideal (Some 1) 1 (1 div of_nat 1) 0 [junk_body example_libc]
     [junk_body example_libc] =
     Some [(junk_body example_libc)\<lparr>ax := flit ideal 0, ay := flit ideal 0\<rparr>] \<and>
   (\<exists>G. main ideal example_libc 1 [''nbody'', ''1'', ''0.5'', ''1'', ''1'', ''1''] =
      \<lparr>stdout = print_snapshot 1 (Some 1) (Some (1 / 2)) G @
         replicate 2 (Vector (flit ideal 0) (flit ideal 0)),
       stderr = [], status = Returned 0\<rparr>)"
  using sole_body_never_accelerates
    [of "[''nbody'', ''1'', ''0.5'', ''1'', ''1'', ''1'']" example_libc ideal 2 "Some 1"
      "junk_body example_libc" "junk_body example_libc"]
  by (simp add: ideal_size_def)

subsection \<open>C6: the number of iterations and the length of the history\<close>

text \<open>
  C6, as amended. In binary32, for a period that is not negative, a positive step and a
  quotient of the two below \<open>2\<^sup>2\<^sup>4 - 1\<close>, the number \<open>its\<close> of iterations is the quotient as
  the division of \<open>float\<close>s rounds it, truncated: the floor of the rounded quotient, which
  is the floor of \<open>time_period / delta_time\<close> or one more. A run on at least one body (a
  body count that the ranks divide and that fits the \<open>int\<close> counts of MPI, allocations that
  succeed) returns 0 after \<open>its\<close> iterations, and what it prints after the snapshot is the
  history of those iterations: exactly \<open>its * body_count\<close> lines \<open>ax ay\<close>, one per body per
  iteration.
\<close>

theorem iterations_and_history_length:
  fixes N :: size_t
  assumes argv: "6 \<le> length argv"
    and W0: "0 < W" and W: "W < 2 ^ 31"
    and N: "N = word_of_int (strtol E (argv ! 3))"
    and mem: "\<forall>n. malloc_ok E n"
    and tp: "is_finite (strtof E (argv ! 1))" "0 \<le> valof (strtof E (argv ! 1))"
    and dt: "is_finite (strtof E (argv ! 2))" "0 < valof (strtof E (argv ! 2))"
    and q: "valof (strtof E (argv ! 1)) / valof (strtof E (argv ! 2)) < 2 ^ 24 - 1"
    and d: "unat N mod W = 0"
    and N0: "N \<noteq> 0" and N31: "unat N < 2 ^ 31"
  shows "\<exists>its G history_lines.
    size_of_float machine (fdiv machine (strtof E (argv ! 1)) (strtof E (argv ! 2))) =
      Some its \<and>
    unat its = nat \<lfloor>valof (fdiv machine (strtof E (argv ! 1)) (strtof E (argv ! 2)))\<rfloor> \<and>
    nat \<lfloor>valof (strtof E (argv ! 1)) / valof (strtof E (argv ! 2))\<rfloor> \<le> unat its \<and>
    unat its \<le> nat \<lfloor>valof (strtof E (argv ! 1)) / valof (strtof E (argv ! 2))\<rfloor> + 1 \<and>
    main machine E W argv =
      \<lparr>stdout = print_snapshot N (strtof E (argv ! 1)) (strtof E (argv ! 2)) G @
                history_lines,
       stderr = [], status = Returned 0\<rparr> \<and>
    history_lines =
      lines_of (history machine (fmul machine (strtof E (argv ! 5)) (strtof E (argv ! 5)))
                 (strtof E (argv ! 2)) N (unat its) G) \<and>
    length history_lines = unat its * unat N"
proof -
  let ?tp = "strtof E (argv ! 1)"
  let ?dt = "strtof E (argv ! 2)"
  obtain its where its: "size_of_float machine (fdiv machine ?tp ?dt) = Some its"
    and u: "unat its = nat \<lfloor>valof (fdiv machine ?tp ?dt)\<rfloor>"
    and lo: "nat \<lfloor>valof ?tp / valof ?dt\<rfloor> \<le> unat its"
    and hi: "unat its \<le> nat \<lfloor>valof ?tp / valof ?dt\<rfloor> + 1"
    using quotient_floor [OF tp(1) dt(1) tp(2) dt(2) q] unfolding machine_sel by blast
  have W64: "W < 2 ^ 64" using W by (rule less_trans) simp
  have big: "28 * unat N < 2 ^ 64" using N31 by simp
  have "\<lfloor>valof ?tp / valof ?dt\<rfloor> \<le> 2 ^ 24 - 1" using q by (simp add: floor_le_iff)
  then have "nat \<lfloor>valof ?tp / valof ?dt\<rfloor> \<le> nat (2 ^ 24 - 1)" by (rule nat_mono)
  with hi have i24: "unat its \<le> 2 ^ 24" by simp
  have p: "unat its * unat N \<le> 2 ^ 24 * 2 ^ 31" using i24 N31 by (intro mult_mono) simp_all
  have "8 * unat its * unat N = 8 * (unat its * unat N)" by (simp only: mult.assoc)
  also have "\<dots> \<le> 8 * (2 ^ 24 * 2 ^ 31)" using p by (rule mult_left_mono) simp
  also have "\<dots> < 2 ^ 64" by simp
  finally have ents: "8 * unat its * unat N < 2 ^ 64" .
  have runs: "its = 0 \<or> N \<noteq> 0 \<and> unat N < 2 ^ 31" using N0 N31 by blast
  let ?h = "\<lambda>G. lines_of (history machine (fmul machine (strtof E (argv ! 5))
                 (strtof E (argv ! 5))) ?dt N (unat its) G)"
  obtain G where
    m: "main machine E W argv =
      \<lparr>stdout = print_snapshot N ?tp ?dt G @ ?h G, stderr = [], status = Returned 0\<rparr>"
    using main_run [OF argv W64 N mem its d big ents runs] by blast
  have "length (?h G) = unat its * unat N" by simp
  with its u lo hi m show ?thesis by blast
qed

text \<open>The theorem at two bodies on two ranks, period 1 and step \<open>0.5\<close>.\<close>

theorem iterations_and_history_length_witness:
  "\<exists>its G history_lines.
    size_of_float machine
      (fdiv machine (Finite False 8388608 (- 23)) (Finite False 8388608 (- 24))) = Some its \<and>
    unat its = nat \<lfloor>valof (fdiv machine (Finite False 8388608 (- 23))
                        (Finite False 8388608 (- 24)))\<rfloor> \<and>
    2 \<le> unat its \<and> unat its \<le> 3 \<and>
    main machine fp_libc 2 [''nbody'', ''1'', ''0.5'', ''2'', ''1'', ''1''] =
      \<lparr>stdout = print_snapshot 2 (Finite False 8388608 (- 23)) (Finite False 8388608 (- 24)) G @
                history_lines,
       stderr = [], status = Returned 0\<rparr> \<and>
    history_lines =
      lines_of (history machine
                 (fmul machine (Finite False 8388608 (- 23)) (Finite False 8388608 (- 23)))
                 (Finite False 8388608 (- 24)) 2 (unat its) G) \<and>
    length history_lines = unat its * 2"
  using iterations_and_history_length
    [of "[''nbody'', ''1'', ''0.5'', ''2'', ''1'', ''1'']" 2 2 fp_libc]
  by (simp add: fp_libc_sel powers_of_two)

text \<open>
  C6 as stated fails in the arithmetic of the machine. At period 1 and step \<open>0.1\<close> the
  \<open>float\<close> nearest to \<open>0.1\<close> lies above it, the quotient of 1 by that \<open>float\<close> lies below 10
  and its floor is 9, but the division rounds the quotient to 10 and the run of one body
  on one rank executes ten iterations. At period \<open>1.3\<close> and step \<open>0.1\<close>, where the quotient
  of the decimals is 13, the division of the two \<open>float\<close>s gives a number below 13, and
  twelve iterations are due.
\<close>

theorem iterations_not_the_floor:
  "nat \<lfloor>valof (strtof fp_libc ''1'') / valof (strtof fp_libc ''0.1'')\<rfloor> = 9 \<and>
   (\<exists>G history_lines.
      main machine fp_libc 1 [''nbody'', ''1'', ''0.1'', ''1'', ''1'', ''1''] =
        \<lparr>stdout = print_snapshot 1 (strtof fp_libc ''1'') (strtof fp_libc ''0.1'') G @
                  history_lines,
         stderr = [], status = Returned 0\<rparr> \<and>
      length history_lines = 10) \<and>
   size_of_float machine (fdiv machine (strtof fp_libc ''1.3'') (strtof fp_libc ''0.1'')) =
     Some 12 \<and>
   \<lfloor>(13 / 10) / (1 / 10) :: real\<rfloor> = 13"
proof -
  let ?argv = "[''nbody'', ''1'', ''0.1'', ''1'', ''1'', ''1'']"
  have v: "nat \<lfloor>valof (strtof fp_libc ''1'') / valof (strtof fp_libc ''0.1'')\<rfloor> = 9"
    by (simp add: fp_libc_sel powers_of_two)
  have its: "size_of_float machine
      (fdiv machine (strtof fp_libc (?argv ! 1)) (strtof fp_libc (?argv ! 2))) = Some 10"
    by code_simp
  have w: "size_of_float machine
      (fdiv machine (strtof fp_libc ''1.3'') (strtof fp_libc ''0.1'')) = Some 12"
    by code_simp
  have f: "\<lfloor>(13 / 10) / (1 / 10) :: real\<rfloor> = 13" by simp
  obtain G where
    m: "main machine fp_libc 1 ?argv =
      \<lparr>stdout = print_snapshot 1 (strtof fp_libc (?argv ! 1)) (strtof fp_libc (?argv ! 2)) G @
         lines_of (history machine
                    (fmul machine (strtof fp_libc (?argv ! 5)) (strtof fp_libc (?argv ! 5)))
                    (strtof fp_libc (?argv ! 2)) 1 (unat (10 :: size_t)) G),
       stderr = [], status = Returned 0\<rparr>"
    using main_run [of ?argv 1 1 fp_libc machine 10, OF _ _ _ _ its]
    by (auto simp: fp_libc_sel)
  let ?h = "lines_of (history machine
                    (fmul machine (strtof fp_libc (?argv ! 5)) (strtof fp_libc (?argv ! 5)))
                    (strtof fp_libc (?argv ! 2)) 1 (unat (10 :: size_t)) G)"
  have l: "length ?h = 10" by simp
  have "main machine fp_libc 1 ?argv =
      \<lparr>stdout = print_snapshot 1 (strtof fp_libc ''1'') (strtof fp_libc ''0.1'') G @ ?h,
       stderr = [], status = Returned 0\<rparr>"
    using m by simp
  with l have "\<exists>G history_lines.
      main machine fp_libc 1 ?argv =
        \<lparr>stdout = print_snapshot 1 (strtof fp_libc ''1'') (strtof fp_libc ''0.1'') G @
                  history_lines,
         stderr = [], status = Returned 0\<rparr> \<and>
      length history_lines = 10"
    by blast
  with v w f show ?thesis by blast
qed

subsection \<open>C7: the slices of the ranks\<close>

text \<open>
  C7 holds for every body count but zero: \<open>partition_ranges\<close> above shows that the loop
  bounds of rank \<open>r\<close> are \<open>[r \<sqdot> (N/W), (r+1) \<sqdot> (N/W))\<close> and that the ranks' ranges, in rank
  order, make up \<open>0, \<dots>, N - 1\<close>. With no body the count is a multiple of every number of
  ranks, and the claim asks for empty ranges; but \<open>begin + bodies_per_process - 1\<close> wraps
  to the largest \<open>size_t\<close>, the clamp \<open>body_count - 1\<close> wraps to it again, and the loop
  runs from 0 to \<open>2\<^sup>6\<^sup>4 - 1\<close>: its first pass reads \<open>bodies[0]\<close> of an array of no element.
  A run of no body on one rank, with two iterations due, prints its header and fails there.
\<close>

theorem partition_of_no_bodies:
  "loop_begin (0 div of_nat world_size) rank = 0 \<and>
   loop_end 0 (0 div of_nat world_size) rank = - 1 \<and>
   unat (loop_end 0 (0 div of_nat world_size) rank) = 2 ^ 64 - 1 \<and>
   compute_phase A softening2 0 (0 div of_nat world_size) rank [] sub_bodies = None \<and>
   main ideal example_libc 1 [''nbody'', ''1'', ''0.5'', ''0'', ''1'', ''1''] =
     \<lparr>stdout = [Count 0, Scalar (Some 1), Scalar (Some (1 / 2))], stderr = [],
      status = Runtime_Failure\<rparr>"
  using compute_phase_no_bodies [of A softening2 world_size rank sub_bodies] run_no_bodies
  by (simp add: loop_end_zero loop_begin_def unat_minus1_64)

subsection \<open>C8: softening\<close>

text \<open>
  C8, as amended. In binary32, let the softening constant be at least \<open>2\<^sup>a\<close> with
  \<open>-49 \<le> a \<le> 99\<close>, so that its cube does not underflow, let the two components of the
  separation, as the subtractions return them, be finite and at most \<open>2\<^sup>c\<close> in magnitude,
  and the mass of the second body finite and at most \<open>2\<^sup>b\<close>. With \<open>h = \<lfloor>3a / 2\<rfloor>\<close>, if
  \<open>2\<^sup>b\<^sup>-\<^sup>h\<close> and \<open>2\<^sup>b\<^sup>+\<^sup>c\<^sup>-\<^sup>h\<close> are in the range of binary32, then the root by which the kernel
  divides is at least \<open>2\<^sup>h\<close>, hence no zero, and both components of the result are finite
  and at most \<open>2\<^sup>b\<^sup>+\<^sup>c\<^sup>-\<^sup>h\<close> in magnitude: a bound that the softening constant, the mass and
  the bound on the separation determine, and that shrinks with the separation.
\<close>

theorem softened_kernel_bounded:
  fixes a b c :: int
  assumes eps: "at_least a softening2"
    and a: "- 49 \<le> a" "a \<le> 99"
    and rx: "at_most c (fsub machine (x second_body) (x first_body))"
    and ry: "at_most c (fsub machine (y second_body) (y first_body))"
    and m: "at_most b (mass second_body)"
    and r1: "- 149 \<le> b - (3 * a) div 2" "b - (3 * a) div 2 \<le> 127"
    and r2: "- 149 \<le> c + (b - (3 * a) div 2)" "c + (b - (3 * a) div 2) \<le> 127"
  shows
    "at_most (c + (b - (3 * a) div 2))
       (fst (calculate_newton_gravity_acceleration machine softening2 first_body second_body)) \<and>
     at_most (c + (b - (3 * a) div 2))
       (snd (calculate_newton_gravity_acceleration machine softening2 first_body second_body)) \<and>
     at_least ((3 * a) div 2)
       (let r_x = fsub machine (x second_body) (x first_body);
            r_y = fsub machine (y second_body) (y first_body);
            d2 = fadd machine (fadd machine (fmul machine r_x r_x) (fmul machine r_y r_y))
                   softening2
        in sqrtf machine (fmul machine (fmul machine d2 d2) d2))"
  using kernel_bounded [OF eps a rx ry m r1 r2] by (simp only: simp_thms)

text \<open>
  The theorem at softening constant 1, for the second of the two bodies of the scenario
  seen from the first: \<open>a = b = c = 0\<close>, the kernel divides by a root of at least 1 and its
  result is at most 1 in magnitude.
\<close>

theorem softened_kernel_bounded_witness:
  "at_most 0
     (fst (calculate_newton_gravity_acceleration machine (Finite False 8388608 (- 23))
            (fp_two_bodies ! 0) (fp_two_bodies ! 1))) \<and>
   at_most 0
     (snd (calculate_newton_gravity_acceleration machine (Finite False 8388608 (- 23))
            (fp_two_bodies ! 0) (fp_two_bodies ! 1))) \<and>
   at_least 0
     (let r_x = fsub machine (x (fp_two_bodies ! 1)) (x (fp_two_bodies ! 0));
          r_y = fsub machine (y (fp_two_bodies ! 1)) (y (fp_two_bodies ! 0));
          d2 = fadd machine (fadd machine (fmul machine r_x r_x) (fmul machine r_y r_y))
                 (Finite False 8388608 (- 23))
      in sqrtf machine (fmul machine (fmul machine d2 d2) d2))"
proof -
  have rx: "fsub machine (x (fp_two_bodies ! 1)) (x (fp_two_bodies ! 0)) =
      Finite False 8388608 (- 23)"
    by code_simp
  have ry: "fsub machine (y (fp_two_bodies ! 1)) (y (fp_two_bodies ! 0)) =
      Finite False 0 (- 149)"
    by code_simp
  have m: "mass (fp_two_bodies ! 1) = Finite False 8388608 (- 23)"
    by (simp add: fp_two_bodies_def)
  show ?thesis
    using softened_kernel_bounded [of 0 "Finite False 8388608 (- 23)" 0
        "fp_two_bodies ! 1" "fp_two_bodies ! 0" 0]
    unfolding rx ry m
    by (simp add: at_least_def at_most_def powers_of_two)
qed

text \<open>
  C8 as stated fails in the arithmetic of the machine. The softening length \<open>2\<^sup>-\<^sup>3\<^sup>0\<close> has the
  positive square \<open>2\<^sup>-\<^sup>6\<^sup>0\<close>; for two bodies at the same place, of masses 1 and 2, \<open>d2\<close> is
  that square, its cube
  \<open>2\<^sup>-\<^sup>1\<^sup>8\<^sup>0\<close> is below half the least positive binary32 number and rounds to zero, the kernel
  divides 1 by the root of zero, and both components of its result are NaN.
\<close>

theorem kernel_not_finite:
  "fmul machine (Finite False 8388608 (- 53)) (Finite False 8388608 (- 53)) =
     Finite False 8388608 (- 83) \<and>
   fmul machine
     (fmul machine (Finite False 8388608 (- 83)) (Finite False 8388608 (- 83)))
     (Finite False 8388608 (- 83)) = Finite False 0 (- 149) \<and>
   sqrtf machine (Finite False 0 (- 149)) = Finite False 0 (- 149) \<and>
   fdiv machine (flit machine 1) (Finite False 0 (- 149)) = Infinity False \<and>
   calculate_newton_gravity_acceleration machine (Finite False 8388608 (- 83))
     coincident coincident_twin = (NaN, NaN)"
  by code_simp

subsection \<open>C9: the mass\<close>

text \<open>
  C9. In any arithmetic, on a body count that the ranks divide: the compute phase of a
  rank fills its buffer with the bodies of its slice, each equal to the body it was copied
  from but for \<open>ax\<close> and \<open>ay\<close>; \<open>integrate\<close> leaves \<open>mass\<close> (and \<open>ax\<close>, \<open>ay\<close>) as they were; and
  after any number of iterations of the loop every body of rank 0 has the mass it had
  before the first.
\<close>

theorem mass_is_never_mutated:
  fixes N :: size_t
  assumes W: "W < 2 ^ 31" and N: "N \<noteq> 0" and d: "unat N mod W = 0"
    and small: "unat N < 2 ^ 31"
    and bodies: "length bodies = unat N"
    and subs: "length subs = W" "list_all (\<lambda>s. length s = unat N div W) subs"
    and accs: "n + 2 * length ks * unat N \<le> length accs"
    and r: "rank < W" and sub: "length sub = unat N div W"
  shows "(\<exists>sub'. compute_phase A e N (N div of_nat W) rank bodies sub = Some sub' \<and>
            length sub' = unat N div W \<and>
            (\<forall>k < unat N div W.
               sub' ! k = (bodies ! (rank * (unat N div W) + k))
                            \<lparr>ax := ax (sub' ! k), ay := ay (sub' ! k)\<rparr>)) \<and>
         mass (integrate A b dt) = mass b \<and>
         ax (integrate A b dt) = ax b \<and> ay (integrate A b dt) = ay b \<and>
         (\<exists>bodies' subs' accs' n'.
            simulation_loop A e dt N (N div of_nat W) ks (bodies, subs, accs, n) =
              Some (bodies', subs', accs', n') \<and>
            map mass bodies' = map mass bodies)"
proof -
  have W64: "W < 2 ^ 64" using W by (rule less_trans) simp
  let ?b = "unat N div W"
  have le: "unat N \<le> length bodies" using bodies by simp
  have cp: "compute_phase A e N (N div of_nat W) rank bodies sub =
      Some (map (accelerated A e N bodies) [rank * ?b ..< rank * ?b + ?b])"
    by (rule compute_phase_result [OF W64 r N d le sub])
  have a: "\<exists>sub'. compute_phase A e N (N div of_nat W) rank bodies sub = Some sub' \<and>
            length sub' = ?b \<and>
            (\<forall>k < ?b. sub' ! k = (bodies ! (rank * ?b + k))
                            \<lparr>ax := ax (sub' ! k), ay := ay (sub' ! k)\<rparr>)"
    unfolding cp by (simp add: accelerated_def)
  obtain subs' where sl: "simulation_loop A e dt N (N div of_nat W) ks (bodies, subs, accs, n) =
      Some (advance_by A e dt N (length ks) bodies, subs',
            take n accs @ history A e dt N (length ks) bodies @
              drop (n + 2 * length ks * unat N) accs,
            n + 2 * length ks * unat N)"
    using simulation_loop_result [OF W64 N d small bodies subs accs] by blast
  have c: "\<exists>bodies' subs' accs' n'.
            simulation_loop A e dt N (N div of_nat W) ks (bodies, subs, accs, n) =
              Some (bodies', subs', accs', n') \<and>
            map mass bodies' = map mass bodies"
    unfolding sl using mass_advance_by [OF bodies] by simp
  show ?thesis using a c by simp
qed

text \<open>The theorem at the two bodies of the scenario, on two ranks, rank 1, one iteration.\<close>

theorem mass_is_never_mutated_witness:
  "(\<exists>sub'. compute_phase ideal (Some 0) 2 (2 div of_nat 2) 1 two_bodies
              [junk_body example_libc] = Some sub' \<and>
            length sub' = unat (2 :: size_t) div 2 \<and>
            (\<forall>k < unat (2 :: size_t) div 2.
               sub' ! k = (two_bodies ! (1 * (unat (2 :: size_t) div 2) + k))
                            \<lparr>ax := ax (sub' ! k), ay := ay (sub' ! k)\<rparr>)) \<and>
   mass (integrate ideal (two_bodies ! 0) (Some (1 / 100))) = mass (two_bodies ! 0) \<and>
   ax (integrate ideal (two_bodies ! 0) (Some (1 / 100))) = ax (two_bodies ! 0) \<and>
   ay (integrate ideal (two_bodies ! 0) (Some (1 / 100))) = ay (two_bodies ! 0) \<and>
   (\<exists>bodies' subs' accs' n'.
      simulation_loop ideal (Some 0) (Some (1 / 100)) 2 (2 div of_nat 2) [0]
        (two_bodies, replicate 2 [junk_body example_libc], replicate 4 (Some 0), 0) =
        Some (bodies', subs', accs', n') \<and>
      map mass bodies' = map mass two_bodies)"
proof -
  have h: "(2 :: nat) < 2 ^ 31" "(2 :: size_t) \<noteq> 0" "unat (2 :: size_t) mod 2 = 0"
    "unat (2 :: size_t) < 2 ^ 31" "length two_bodies = unat (2 :: size_t)"
    "length (replicate 2 [junk_body example_libc]) = 2"
    "list_all (\<lambda>s. length s = unat (2 :: size_t) div 2) (replicate 2 [junk_body example_libc])"
    "0 + 2 * length [0 :: nat] * unat (2 :: size_t) \<le> length (replicate 4 (Some (0 :: real)))"
    "(1 :: nat) < 2" "length [junk_body example_libc] = unat (2 :: size_t) div 2"
    by (simp_all add: two_bodies_def list_all_iff)
  show ?thesis
    by (rule mass_is_never_mutated [OF h])
qed

subsection \<open>C10: a step longer than the period\<close>




end
